theory Spec2Isabelle
  imports Complex_Main "HOL-Library.Word"
begin

unbundle bit_operations_syntax

section \<open>Lock: the one-byte adaptive mutex (wtf/Lock.h)\<close>

text \<open>
  \<^verbatim>\<open>static const uint8_t isHeldBit = 1; static const uint8_t hasParkedBit = 2;\<close>
\<close>

definition isHeldBit :: "8 word" where
  "isHeldBit = 1"

definition hasParkedBit :: "8 word" where
  "hasParkedBit = 2"

text \<open>
  Modelled from the spec: \<^verbatim>\<open>Atomic<uint8_t>::compareExchangeWeak\<close> is declared in
  wtf/Atomics.h, which is not among the sources. The spec calls it a single CAS of the byte
  from the expected to the desired value. A weak CAS stores \<open>desired\<close> and returns true only
  when the byte equals \<open>expected\<close>; it may also fail although the byte equals \<open>expected\<close>,
  which the flag \<open>spurious\<close> decides. The result is the returned flag with the byte afterwards.
\<close>

definition compareExchangeWeak :: "bool \<Rightarrow> 8 word \<Rightarrow> 8 word \<Rightarrow> 8 word \<Rightarrow> bool \<times> 8 word" where
  "compareExchangeWeak spurious expected desired m_byte =
     (if m_byte = expected \<and> \<not> spurious then (True, desired) else (False, m_byte))"

text \<open>
  \<^verbatim>\<open>LockBase::unlock\<close>. The body of \<^verbatim>\<open>unlockSlow\<close> lives in Lock.cpp, which is not
  among the sources, so the outcome records which path is taken: the fast path returns with
  the byte it stored, the other branch enters \<^verbatim>\<open>unlockSlow\<close> with the byte as it is.
\<close>

datatype unlock_outcome = FastPathReleased "8 word" | CallsUnlockSlow "8 word"

definition unlock :: "bool \<Rightarrow> 8 word \<Rightarrow> unlock_outcome" where
  "unlock spurious m_byte =
     (case compareExchangeWeak spurious isHeldBit 0 m_byte of
        (True, m') \<Rightarrow> FastPathReleased m'
      | (False, m') \<Rightarrow> CallsUnlockSlow m')"

text \<open>\<^verbatim>\<open>LockBase::isHeld\<close>: \<^verbatim>\<open>m_byte.load() & isHeldBit\<close> as a boolean.\<close>

definition isHeld :: "8 word \<Rightarrow> bool" where
  "isHeld m_byte = (m_byte AND isHeldBit \<noteq> 0)"

section \<open>ParkingLot: the data model (wtf/ParkingLot.cpp)\<close>

text \<open>
  A \<^verbatim>\<open>ThreadData*\<close> that is not null is a natural number, a nullable one is an option.
  The opaque \<^verbatim>\<open>const void* address\<close> is a natural number, with 0 for \<^verbatim>\<open>nullptr\<close>.
  The mutex and the condition variable of a record carry no data; a notification is logged
  in the state instead (see \<open>notified\<close> below).
\<close>

record ThreadData =
  threadIdentifier :: nat
  shouldPark :: bool
  address :: nat
  nextInQueue :: "nat option"

datatype DequeueResult = Ignore | RemoveAndContinue | RemoveAndStop

record Bucket =
  queueHead :: "nat option"
  queueTail :: "nat option"

text \<open>The memory holding the \<^verbatim>\<open>ThreadData\<close> objects, by pointer.\<close>

type_synonym ThreadDataHeap = "nat \<Rightarrow> ThreadData"

subsection \<open>Bucket::enqueue\<close>

text \<open>
  The two \<^verbatim>\<open>ASSERT\<close>s (\<^verbatim>\<open>data->address\<close>, \<^verbatim>\<open>!data->nextInQueue\<close>) are compiled out of
  release builds and are not branches here; they are hypotheses of the theorems below.
\<close>

definition Bucket_enqueue :: "nat \<Rightarrow> Bucket \<times> ThreadDataHeap \<Rightarrow> Bucket \<times> ThreadDataHeap" where
  "Bucket_enqueue td bh =
     (case bh of (b, h) \<Rightarrow>
        (case queueTail b of
           Some tail \<Rightarrow>
             (b\<lparr>queueTail := Some td\<rparr>, h(tail := (h tail)\<lparr>nextInQueue := Some td\<rparr>))
         | None \<Rightarrow> (b\<lparr>queueHead := Some td, queueTail := Some td\<rparr>, h)))"

subsection \<open>Bucket::genericDequeue\<close>

text \<open>
  \<^verbatim>\<open>ThreadData** currentPtr\<close> points either at the bucket's \<^verbatim>\<open>queueHead\<close> or at the
  \<^verbatim>\<open>nextInQueue\<close> field of a node.
\<close>

datatype link = QueueHeadLink | NextInQueueLink nat

fun readLink :: "link \<Rightarrow> Bucket \<times> ThreadDataHeap \<Rightarrow> nat option" where
  "readLink QueueHeadLink (b, h) = queueHead b"
| "readLink (NextInQueueLink p) (b, h) = nextInQueue (h p)"

fun writeLink :: "link \<Rightarrow> nat option \<Rightarrow> Bucket \<times> ThreadDataHeap \<Rightarrow> Bucket \<times> ThreadDataHeap" where
  "writeLink QueueHeadLink v (b, h) = (b\<lparr>queueHead := v\<rparr>, h)"
| "writeLink (NextInQueueLink p) v (b, h) = (b, h(p := (h p)\<lparr>nextInQueue := v\<rparr>))"

text \<open>
  The removal branch of the loop, its three writes in the source's order:
  \<^verbatim>\<open>if (current == queueTail) queueTail = previous;\<close>
  \<^verbatim>\<open>*currentPtr = current->nextInQueue; current->nextInQueue = nullptr;\<close>
\<close>

definition removeCurrent ::
  "link \<Rightarrow> nat option \<Rightarrow> nat \<Rightarrow> Bucket \<times> ThreadDataHeap \<Rightarrow> Bucket \<times> ThreadDataHeap" where
  "removeCurrent currentPtr previous current bh =
     (case bh of (b, h) \<Rightarrow>
        (case writeLink currentPtr (nextInQueue (h current))
                (if queueTail b = Some current then b\<lparr>queueTail := previous\<rparr> else b, h) of
           (b', h') \<Rightarrow> (b', h'(current := (h' current)\<lparr>nextInQueue := None\<rparr>))))"

text \<open>
  The functor is a C++ lambda with captured variables: here a function of the captured
  state \<open>'s\<close>, the element pointer and the element it points to, returning the verdict and
  the new captured state. The \<^verbatim>\<open>while (shouldContinue)\<close> loop need not end on a cyclic
  queue, so it is a partial function: \<open>None\<close> is a loop that never returns.
\<close>

type_synonym 's DequeueFunctor = "'s \<Rightarrow> nat \<Rightarrow> ThreadData \<Rightarrow> DequeueResult \<times> 's"

partial_function (option) genericDequeue_loop ::
  "'s DequeueFunctor \<Rightarrow> link \<Rightarrow> nat option \<Rightarrow> Bucket \<times> ThreadDataHeap \<Rightarrow> 's
     \<Rightarrow> ((Bucket \<times> ThreadDataHeap) \<times> 's) option" where
  "genericDequeue_loop functor currentPtr previous bh fs =
     (case readLink currentPtr bh of
        None \<Rightarrow> Some (bh, fs)
      | Some current \<Rightarrow>
          (case functor fs current (snd bh current) of
             (Ignore, fs') \<Rightarrow>
               genericDequeue_loop functor (NextInQueueLink current) (Some current) bh fs'
           | (RemoveAndContinue, fs') \<Rightarrow>
               genericDequeue_loop functor currentPtr previous
                 (removeCurrent currentPtr previous current bh) fs'
           | (RemoveAndStop, fs') \<Rightarrow>
               Some (removeCurrent currentPtr previous current bh, fs')))"

definition genericDequeue ::
  "'s DequeueFunctor \<Rightarrow> Bucket \<times> ThreadDataHeap \<Rightarrow> 's \<Rightarrow> ((Bucket \<times> ThreadDataHeap) \<times> 's) option" where
  "genericDequeue functor bh fs =
     (if queueHead (fst bh) = None then Some (bh, fs)
      else genericDequeue_loop functor QueueHeadLink None bh fs)"

subsection \<open>Bucket::dequeue\<close>

definition Bucket_dequeue :: "Bucket \<times> ThreadDataHeap \<Rightarrow> (nat option \<times> Bucket \<times> ThreadDataHeap) option" where
  "Bucket_dequeue bh =
     map_option (\<lambda>(bh', result). (result, bh'))
       (genericDequeue (\<lambda>result element _. (RemoveAndStop, Some element)) bh None)"

section \<open>ParkingLot: the hashtable and the global state\<close>

text \<open>
  The spine \<^verbatim>\<open>Hashtable\<close> is its array of bucket pointers; the field \<^verbatim>\<open>size\<close> is the
  length of that array, as \<^verbatim>\<open>Hashtable::create\<close> makes it. \<^verbatim>\<open>fastZeroedMalloc\<close> leaves
  every slot null.
\<close>

record Hashtable =
  data :: "nat option list"

definition Hashtable_size :: "Hashtable \<Rightarrow> nat" where
  "Hashtable_size ht = length (data ht)"

definition Hashtable_create :: "nat \<Rightarrow> Hashtable" where
  "Hashtable_create n = \<lparr>data = replicate n None\<rparr>"

definition maxLoadFactor :: nat where
  "maxLoadFactor = 3"

definition growthFactor :: nat where
  "growthFactor = 2"

text \<open>
  The globals of the file and the memory they point into: the current spine
  (\<^verbatim>\<open>Atomic<Hashtable*> hashtable\<close>, \<open>None\<close> before the first one is created), the
  \<^verbatim>\<open>Bucket\<close> objects by pointer with the number of buckets allocated so far (\<^verbatim>\<open>new Bucket()\<close>
  returns the next one), and the \<^verbatim>\<open>ThreadData\<close> objects by pointer. \<open>notified\<close> lists the
  records whose \<^verbatim>\<open>parkingCondition.notify_all()\<close> was called, oldest first.

  The operations are modelled one at a time, each running alone: a bucket lock is then always
  free, a compare-and-swap meets the value that was just loaded, and the re-check
  \<^verbatim>\<open>hashtable.load() != myHashtable\<close> never fires. Locks are therefore not part of the state.
\<close>

record ParkingLot =
  hashtable :: "Hashtable option"
  buckets :: "nat \<Rightarrow> Bucket"
  bucketCount :: nat
  heap :: ThreadDataHeap
  notified :: "nat list"

datatype error = NullDereference | DivisionByZero | ReleaseAssertFailed

text \<open>\<^verbatim>\<open>new Bucket()\<close>: both queue pointers start null.\<close>

definition newBucket :: "ParkingLot \<Rightarrow> nat \<times> ParkingLot" where
  "newBucket s =
     (bucketCount s,
      s\<lparr>buckets := (buckets s)(bucketCount s := \<lparr>queueHead = None, queueTail = None\<rparr>),
        bucketCount := Suc (bucketCount s)\<rparr>)"

text \<open>\<^verbatim>\<open>hashtable->data[i].load()\<close> and \<^verbatim>\<open>.store(bucket)\<close> on the current spine.\<close>

definition loadSlot :: "ParkingLot \<Rightarrow> nat \<Rightarrow> nat option" where
  "loadSlot s i = (case hashtable s of None \<Rightarrow> None | Some ht \<Rightarrow> data ht ! i)"

definition storeSlot :: "nat \<Rightarrow> nat \<Rightarrow> ParkingLot \<Rightarrow> ParkingLot" where
  "storeSlot i bucket s =
     s\<lparr>hashtable := map_option (\<lambda>ht. ht\<lparr>data := (data ht)[i := Some bucket]\<rparr>) (hashtable s)\<rparr>"

text \<open>
  The inner \<^verbatim>\<open>for (;;)\<close> of \<^verbatim>\<open>enqueue\<close> and of \<^verbatim>\<open>lockHashtable\<close>: load the slot and, when
  it is null, install a new bucket by compare-and-swap.
\<close>

definition materializeBucket :: "nat \<Rightarrow> ParkingLot \<Rightarrow> nat \<times> ParkingLot" where
  "materializeBucket i s =
     (case loadSlot s i of
        Some bucket \<Rightarrow> (bucket, s)
      | None \<Rightarrow> (case newBucket s of (bucket, s') \<Rightarrow> (bucket, storeSlot i bucket s')))"

subsection \<open>enqueue and parkConditionally\<close>

text \<open>
  \<^verbatim>\<open>hashAddress\<close> is \<^verbatim>\<open>PtrHash<const void*>::hash\<close> of wtf/HashFunctions.h, which is not
  among the sources: it is a parameter of every operation that hashes. The functor of
  \<^verbatim>\<open>enqueue\<close> may write to the caller's record, so it maps the memory to the returned pointer
  and the memory afterwards. \<^verbatim>\<open>enqueue\<close> dereferences the spine pointer without a null check
  and divides by its size.
\<close>

definition enqueue ::
  "(nat \<Rightarrow> nat) \<Rightarrow> nat \<Rightarrow> (ThreadDataHeap \<Rightarrow> nat option \<times> ThreadDataHeap) \<Rightarrow> ParkingLot
     \<Rightarrow> error + bool \<times> ParkingLot" where
  "enqueue hashAddress addr functor s =
     (case hashtable s of
        None \<Rightarrow> Inl NullDereference
      | Some myHashtable \<Rightarrow>
          if Hashtable_size myHashtable = 0 then Inl DivisionByZero
          else
            (case materializeBucket (hashAddress addr mod Hashtable_size myHashtable) s of
               (bucket, s1) \<Rightarrow>
                 (case functor (heap s1) of
                    (Some threadData, h) \<Rightarrow>
                      (case Bucket_enqueue threadData (buckets s1 bucket, h) of
                         (b', h') \<Rightarrow>
                           Inr (True, s1\<lparr>buckets := (buckets s1)(bucket := b'), heap := h'\<rparr>))
                  | (None, h) \<Rightarrow> Inr (False, s1\<lparr>heap := h\<rparr>))))"

text \<open>
  \<^verbatim>\<open>parkConditionally\<close> for the thread whose record \<^verbatim>\<open>myThreadData()\<close> is \<open>me\<close>. The
  callback \<^verbatim>\<open>validation\<close> reads the caller's own data \<open>env\<close>. After a successful enqueue
  the thread sleeps in \<^verbatim>\<open>while (me->shouldPark) parkingCondition.wait(locker)\<close>: with no
  other thread running, the call is \<open>Asleep\<close> there while the flag is set, and returns true
  with \<^verbatim>\<open>address\<close> cleared once it is not.
\<close>

datatype park_outcome = Returned bool | Asleep

definition parkingWait :: "nat \<Rightarrow> ParkingLot \<Rightarrow> park_outcome \<times> ParkingLot" where
  "parkingWait me s =
     (if shouldPark (heap s me) then (Asleep, s)
      else (Returned True, s\<lparr>heap := (heap s)(me := (heap s me)\<lparr>address := 0\<rparr>)\<rparr>))"

definition parkConditionally ::
  "(nat \<Rightarrow> nat) \<Rightarrow> nat \<Rightarrow> nat \<Rightarrow> ('e \<Rightarrow> bool) \<Rightarrow> 'e \<Rightarrow> ParkingLot
     \<Rightarrow> error + park_outcome \<times> ParkingLot" where
  "parkConditionally hashAddress me addr validation env s =
     (case enqueue hashAddress addr
             (\<lambda>h. if \<not> validation env then (None, h)
                  else (Some me, h(me := (h me)\<lparr>address := addr, shouldPark := True\<rparr>))) s of
        Inl e \<Rightarrow> Inl e
      | Inr (result, s') \<Rightarrow>
          if \<not> result then Inr (Returned False, s') else Inr (parkingWait me s'))"

subsection \<open>dequeue, unparkOne and unparkAll\<close>

definition dequeue ::
  "(nat \<Rightarrow> nat) \<Rightarrow> nat \<Rightarrow> 's DequeueFunctor \<Rightarrow> 's \<Rightarrow> ParkingLot
     \<Rightarrow> (error + bool \<times> 's \<times> ParkingLot) option" where
  "dequeue hashAddress addr functor fs s =
     (case hashtable s of
        None \<Rightarrow> Some (Inr (False, fs, s))
      | Some myHashtable \<Rightarrow>
          if Hashtable_size myHashtable = 0 then Some (Inl DivisionByZero)
          else
            (case data myHashtable ! (hashAddress addr mod Hashtable_size myHashtable) of
               None \<Rightarrow> Some (Inr (False, fs, s))
             | Some bucket \<Rightarrow>
                 (case genericDequeue functor (buckets s bucket, heap s) fs of
                    None \<Rightarrow> None
                  | Some ((b', h'), fs') \<Rightarrow>
                      Some (Inr (queueHead b' \<noteq> None, fs',
                                 s\<lparr>buckets := (buckets s)(bucket := b'), heap := h'\<rparr>)))))"

text \<open>
  The block \<^verbatim>\<open>{ lock parkingLock; threadData->shouldPark = false; notify_all(); }\<close> that
  both unpark operations run on a dequeued record.
\<close>

definition signalThread :: "ParkingLot \<Rightarrow> nat \<Rightarrow> ParkingLot" where
  "signalThread s threadData =
     s\<lparr>heap := (heap s)(threadData := (heap s threadData)\<lparr>shouldPark := False\<rparr>),
       notified := notified s @ [threadData]\<rparr>"

text \<open>The lambda of \<^verbatim>\<open>unparkOne\<close> captures \<^verbatim>\<open>ThreadData* threadData = nullptr\<close>.\<close>

definition unparkOne_functor :: "nat \<Rightarrow> (nat option) DequeueFunctor" where
  "unparkOne_functor addr threadData element r =
     (if address r \<noteq> addr then (Ignore, threadData) else (RemoveAndStop, Some element))"

definition unparkOne :: "(nat \<Rightarrow> nat) \<Rightarrow> nat \<Rightarrow> ParkingLot \<Rightarrow> (error + bool \<times> ParkingLot) option" where
  "unparkOne hashAddress addr s =
     (case dequeue hashAddress addr (unparkOne_functor addr) None s of
        None \<Rightarrow> None
      | Some (Inl e) \<Rightarrow> Some (Inl e)
      | Some (Inr (result, None, s')) \<Rightarrow> Some (Inr (False, s'))
      | Some (Inr (result, Some threadData, s')) \<Rightarrow> Some (Inr (result, signalThread s' threadData)))"

text \<open>The lambda of \<^verbatim>\<open>unparkAll\<close> captures the vector \<^verbatim>\<open>threadDatas\<close>, empty at first.\<close>

definition unparkAll_functor :: "nat \<Rightarrow> (nat list) DequeueFunctor" where
  "unparkAll_functor addr threadDatas element r =
     (if address r \<noteq> addr then (Ignore, threadDatas)
      else (RemoveAndContinue, threadDatas @ [element]))"

definition unparkAll :: "(nat \<Rightarrow> nat) \<Rightarrow> nat \<Rightarrow> ParkingLot \<Rightarrow> (error + ParkingLot) option" where
  "unparkAll hashAddress addr s =
     (case dequeue hashAddress addr (unparkAll_functor addr) [] s of
        None \<Rightarrow> None
      | Some (Inl e) \<Rightarrow> Some (Inl e)
      | Some (Inr (result, threadDatas, s')) \<Rightarrow> Some (Inr (foldl signalThread s' threadDatas)))"

subsection \<open>lockHashtable and ensureHashtableSize\<close>

text \<open>
  \<^verbatim>\<open>lockHashtable\<close> creates the first spine when there is none, materializes a bucket in
  every slot, going down from the last (\<^verbatim>\<open>for (unsigned i = size; i--;)\<close>), and returns
  the bucket pointers sorted.
\<close>

fun materializeAll :: "nat \<Rightarrow> ParkingLot \<Rightarrow> nat list \<Rightarrow> nat list \<times> ParkingLot" where
  "materializeAll 0 s bucketList = (bucketList, s)"
| "materializeAll (Suc i) s bucketList =
     (case materializeBucket i s of
        (bucket, s') \<Rightarrow> materializeAll i s' (bucketList @ [bucket]))"

definition lockHashtable :: "ParkingLot \<Rightarrow> nat list \<times> ParkingLot" where
  "lockHashtable s =
     (case (case hashtable s of
              None \<Rightarrow> (Hashtable_create maxLoadFactor,
                        s\<lparr>hashtable := Some (Hashtable_create maxLoadFactor)\<rparr>)
            | Some currentHashtable \<Rightarrow> (currentHashtable, s)) of
        (currentHashtable, s0) \<Rightarrow>
          (case materializeAll (Hashtable_size currentHashtable) s0 [] of
             (bucketList, s1) \<Rightarrow> (sort bucketList, s1)))"

text \<open>
  The check \<^verbatim>\<open>static_cast<double>(size) / static_cast<double>(numThreads) >= maxLoadFactor\<close>.
  Both operands are 32-bit values, which a double holds exactly, and the quotient of two such
  values is either at least 3 or below 3 by more than the spacing of doubles near 3, so the
  rounded quotient compares with 3 as the exact one does. Division by \<open>numThreads = 0\<close> gives
  infinity (the check holds) for a positive size and NaN (the check fails) for size 0.
\<close>

definition loadFactorHolds :: "nat \<Rightarrow> nat \<Rightarrow> bool" where
  "loadFactorHolds sz numThreads =
     (if numThreads = 0 then sz \<noteq> 0 else real sz / real numThreads \<ge> real maxLoadFactor)"

text \<open>
  \<^verbatim>\<open>while (ThreadData* threadData = bucket->dequeue()) threadDatas.append(threadData);\<close>
\<close>

partial_function (option) drainBucket ::
  "Bucket \<times> ThreadDataHeap \<Rightarrow> nat list \<Rightarrow> ((Bucket \<times> ThreadDataHeap) \<times> nat list) option" where
  "drainBucket bh threadDatas =
     Option.bind (Bucket_dequeue bh)
       (\<lambda>(threadData, bh').
          case threadData of
            None \<Rightarrow> Some (bh', threadDatas)
          | Some td \<Rightarrow> drainBucket bh' (threadDatas @ [td]))"

text \<open>\<^verbatim>\<open>for (Bucket* bucket : reusableBuckets)\<close> around that loop.\<close>

fun drainBuckets :: "nat list \<Rightarrow> ParkingLot \<Rightarrow> nat list \<Rightarrow> (ParkingLot \<times> nat list) option" where
  "drainBuckets [] s threadDatas = Some (s, threadDatas)"
| "drainBuckets (bucket # rest) s threadDatas =
     (case drainBucket (buckets s bucket, heap s) threadDatas of
        None \<Rightarrow> None
      | Some ((b', h'), threadDatas') \<Rightarrow>
          drainBuckets rest (s\<lparr>buckets := (buckets s)(bucket := b'), heap := h'\<rparr>) threadDatas')"

text \<open>
  \<^verbatim>\<open>for (ThreadData* threadData : threadDatas)\<close>: the new spine is not installed yet and is
  carried along with the vector \<^verbatim>\<open>reusableBuckets\<close>, whose \<^verbatim>\<open>takeLast()\<close> removes and
  returns its last element.
\<close>

definition takeBucket :: "nat list \<Rightarrow> ParkingLot \<Rightarrow> nat \<times> nat list \<times> ParkingLot" where
  "takeBucket reusableBuckets s =
     (if reusableBuckets = [] then (case newBucket s of (bucket, s') \<Rightarrow> (bucket, reusableBuckets, s'))
      else (last reusableBuckets, butlast reusableBuckets, s))"

text \<open>
  \<^verbatim>\<open>Bucket* bucket = newHashtable->data[index].load(); if (!bucket) { ... }\<close>: the bucket
  of the slot \<open>index\<close> of the new spine, taken from the reusable buckets or allocated when the
  slot is null.
\<close>

definition rehashBucket ::
  "nat \<Rightarrow> Hashtable \<times> nat list \<times> ParkingLot \<Rightarrow> nat \<times> Hashtable \<times> nat list \<times> ParkingLot" where
  "rehashBucket index st =
     (case st of (newHashtable, reusableBuckets, s) \<Rightarrow>
        (case data newHashtable ! index of
           Some bucket \<Rightarrow> (bucket, newHashtable, reusableBuckets, s)
         | None \<Rightarrow>
             (case takeBucket reusableBuckets s of
                (bucket, reusable', s') \<Rightarrow>
                  (bucket, newHashtable\<lparr>data := (data newHashtable)[index := Some bucket]\<rparr>,
                   reusable', s'))))"

fun rehashThreadDatas ::
  "(nat \<Rightarrow> nat) \<Rightarrow> nat list \<Rightarrow> Hashtable \<times> nat list \<times> ParkingLot \<Rightarrow> Hashtable \<times> nat list \<times> ParkingLot" where
  "rehashThreadDatas hashAddress [] st = st"
| "rehashThreadDatas hashAddress (threadData # rest) (newHashtable, reusableBuckets, s) =
     (case rehashBucket
             (hashAddress (address (heap s threadData)) mod Hashtable_size newHashtable)
             (newHashtable, reusableBuckets, s) of
        (bucket, newHashtable', reusable', s') \<Rightarrow>
          (case Bucket_enqueue threadData (buckets s' bucket, heap s') of
             (b', h') \<Rightarrow>
               rehashThreadDatas hashAddress rest
                 (newHashtable', reusable',
                  s'\<lparr>buckets := (buckets s')(bucket := b'), heap := h'\<rparr>)))"

text \<open>
  \<^verbatim>\<open>for (unsigned i = 0; i < newHashtable->size && !reusableBuckets.isEmpty(); ++i)\<close>: the
  buckets left over go into the slots that are still null.
\<close>

function placeLeftovers :: "nat \<Rightarrow> Hashtable \<Rightarrow> nat list \<Rightarrow> Hashtable \<times> nat list" where
  "placeLeftovers i newHashtable reusableBuckets =
     (if i < Hashtable_size newHashtable \<and> reusableBuckets \<noteq> [] then
        (if data newHashtable ! i \<noteq> None then placeLeftovers (Suc i) newHashtable reusableBuckets
         else placeLeftovers (Suc i)
                (newHashtable\<lparr>data := (data newHashtable)[i := Some (last reusableBuckets)]\<rparr>)
                (butlast reusableBuckets))
      else (newHashtable, reusableBuckets))"
  by pat_completeness auto
termination
  by (relation "measure (\<lambda>(i, newHashtable, reusableBuckets). Hashtable_size newHashtable - i)")
     (auto simp: Hashtable_size_def)

declare placeLeftovers.simps [simp del]

text \<open>
  \<^verbatim>\<open>ensureHashtableSize\<close>. \<^verbatim>\<open>numThreads\<close> and \<^verbatim>\<open>newSize\<close> are \<^verbatim>\<open>unsigned\<close>, so the product
  wraps at \<open>2 ^ 32\<close>. A failed \<^verbatim>\<open>RELEASE_ASSERT\<close> ends the program; the \<^verbatim>\<open>ASSERT\<close> that the
  reusable buckets are used up is compiled out of release builds.
\<close>

definition ensureHashtableSize ::
  "(nat \<Rightarrow> nat) \<Rightarrow> nat \<Rightarrow> ParkingLot \<Rightarrow> (error + ParkingLot) option" where
  "ensureHashtableSize hashAddress numThreads s =
     (if (case hashtable s of
            None \<Rightarrow> False
          | Some oldHashtable \<Rightarrow> loadFactorHolds (Hashtable_size oldHashtable) numThreads)
      then Some (Inr s)
      else
        (case lockHashtable s of
           (bucketsToUnlock, s1) \<Rightarrow>
             if (case hashtable s1 of
                   None \<Rightarrow> False
                 | Some oldHashtable \<Rightarrow> loadFactorHolds (Hashtable_size oldHashtable) numThreads)
             then Some (Inr s1)
             else
               (case drainBuckets bucketsToUnlock s1 [] of
                  None \<Rightarrow> None
                | Some (s2, threadDatas) \<Rightarrow>
                    (case hashtable s1 of
                       None \<Rightarrow> Some (Inl NullDereference)
                     | Some oldHashtable \<Rightarrow>
                         if \<not> (numThreads * growthFactor * maxLoadFactor) mod 2 ^ 32
                                > Hashtable_size oldHashtable
                         then Some (Inl ReleaseAssertFailed)
                         else
                           (case rehashThreadDatas hashAddress threadDatas
                                   (Hashtable_create
                                      ((numThreads * growthFactor * maxLoadFactor) mod 2 ^ 32),
                                    bucketsToUnlock, s2) of
                              (newHashtable, reusableBuckets, s3) \<Rightarrow>
                                (case placeLeftovers 0 newHashtable reusableBuckets of
                                   (newHashtable', reusableBuckets') \<Rightarrow>
                                     Some (Inr (s3\<lparr>hashtable := Some newHashtable'\<rparr>))))))))"

section \<open>The queue of a bucket as a list\<close>

text \<open>
  The definitions of this section are not code of the program: they say which list of
  records an intrusive queue holds, so that the theorems can speak about queue order.
  \<open>chain h p xs q\<close>: following \<^verbatim>\<open>nextInQueue\<close> from the pointer \<open>p\<close> visits exactly the
  records \<open>xs\<close>, in this order, and ends at the pointer \<open>q\<close>.
\<close>

fun chain :: "ThreadDataHeap \<Rightarrow> nat option \<Rightarrow> nat list \<Rightarrow> nat option \<Rightarrow> bool" where
  "chain h p [] q = (p = q)"
| "chain h p (x # xs) q = (p = Some x \<and> chain h (nextInQueue (h x)) xs q)"

definition firstOpt :: "nat list \<Rightarrow> nat option" where
  "firstOpt xs = (case xs of [] \<Rightarrow> None | x # _ \<Rightarrow> Some x)"

definition lastOpt :: "nat list \<Rightarrow> nat option" where
  "lastOpt xs = (if xs = [] then None else Some (last xs))"

fun dequeueRun :: "'s DequeueFunctor \<Rightarrow> ThreadDataHeap \<Rightarrow> 's \<Rightarrow> nat list \<Rightarrow> nat list \<times> nat list \<times> 's" where
  "dequeueRun f h fs [] = ([], [], fs)"
| "dequeueRun f h fs (z # zs) =
     (case f fs z (h z) of
        (Ignore, fs') \<Rightarrow> (case dequeueRun f h fs' zs of (k, r, fs'') \<Rightarrow> (z # k, r, fs''))
      | (RemoveAndContinue, fs') \<Rightarrow> (case dequeueRun f h fs' zs of (k, r, fs'') \<Rightarrow> (k, z # r, fs''))
      | (RemoveAndStop, fs') \<Rightarrow> (zs, [z], fs'))"

definition linkAfter :: "nat list \<Rightarrow> link" where
  "linkAfter ys = (if ys = [] then QueueHeadLink else NextInQueueLink (last ys))"

definition linksOnly :: "ThreadDataHeap \<Rightarrow> ThreadDataHeap \<Rightarrow> bool" where
  "linksOnly h h' = (\<forall>p. h' p = (h p)\<lparr>nextInQueue := nextInQueue (h' p)\<rparr>)"

text \<open>
  \<open>bucketQueue h b xs\<close>: the queue of the bucket \<open>b\<close> is \<open>xs\<close>: the records reachable from
  \<^verbatim>\<open>queueHead\<close> are \<open>xs\<close>, the last of them has a null \<^verbatim>\<open>nextInQueue\<close>, and \<^verbatim>\<open>queueTail\<close>
  points at the last of them (it is null for the empty queue).
\<close>

definition bucketQueue :: "ThreadDataHeap \<Rightarrow> Bucket \<Rightarrow> nat list \<Rightarrow> bool" where
  "bucketQueue h b xs = (chain h (queueHead b) xs None \<and> queueTail b = lastOpt xs)"

text \<open>
  \<open>queueAt hashAddress s addr xs\<close>: in the state \<open>s\<close>, the bucket that the address \<open>addr\<close>
  hashes to holds the queue \<open>xs\<close>; with no spine yet or with a null slot that queue is empty.
  \<open>parkedOn h addr p\<close>: the record \<open>p\<close> carries the address \<open>addr\<close>.
\<close>

definition queueAt :: "(nat \<Rightarrow> nat) \<Rightarrow> ParkingLot \<Rightarrow> nat \<Rightarrow> nat list \<Rightarrow> bool" where
  "queueAt hashAddress s addr xs =
     (case hashtable s of
        None \<Rightarrow> xs = []
      | Some ht \<Rightarrow>
          Hashtable_size ht \<noteq> 0 \<and>
          (case data ht ! (hashAddress addr mod Hashtable_size ht) of
             None \<Rightarrow> xs = []
           | Some bucket \<Rightarrow> bucketQueue (heap s) (buckets s bucket) xs))"

definition parkedOn :: "ThreadDataHeap \<Rightarrow> nat \<Rightarrow> nat \<Rightarrow> bool" where
  "parkedOn h addr p = (address (h p) = addr)"

text \<open>
  \<open>bucketInv hashAddress n i h b xs\<close>: the bucket \<open>b\<close> holds the queue \<open>xs\<close>, and the address
  of every record of \<open>xs\<close> hashes to the slot \<open>i\<close> of a spine of \<open>n\<close> slots.
\<close>

definition bucketInv :: "(nat \<Rightarrow> nat) \<Rightarrow> nat \<Rightarrow> nat \<Rightarrow> ThreadDataHeap \<Rightarrow> Bucket \<Rightarrow> nat list \<Rightarrow> bool" where
  "bucketInv hashAddress n i h b xs =
     (bucketQueue h b xs \<and> (\<forall>p \<in> set xs. hashAddress (address (h p)) mod n = i))"


text \<open>
  The whole parking lot. \<open>slotInv hashAddress s ht i xs\<close>: the slot \<open>i\<close> of the spine \<open>ht\<close>
  is null and \<open>xs\<close> is empty, or it points to an allocated bucket whose queue is \<open>xs\<close>; and the
  address of every record of \<open>xs\<close> hashes to \<open>i\<close>. \<open>injectiveSlots ht\<close>: no bucket is in two
  slots. \<open>lotInv hashAddress s Q\<close>: the state has a spine of at least one slot, no bucket is
  in two slots, and the queue of every slot \<open>i\<close> is \<open>Q i\<close>.
\<close>

definition slotInv :: "(nat \<Rightarrow> nat) \<Rightarrow> ParkingLot \<Rightarrow> Hashtable \<Rightarrow> nat \<Rightarrow> nat list \<Rightarrow> bool" where
  "slotInv hashAddress s ht i xs =
     ((case data ht ! i of
         None \<Rightarrow> xs = []
       | Some bucket \<Rightarrow> bucket < bucketCount s \<and> bucketQueue (heap s) (buckets s bucket) xs)
      \<and> (\<forall>p \<in> set xs. hashAddress (address (heap s p)) mod Hashtable_size ht = i))"

definition injectiveSlots :: "Hashtable \<Rightarrow> bool" where
  "injectiveSlots ht =
     (\<forall>i < Hashtable_size ht. \<forall>j < Hashtable_size ht.
        data ht ! i \<noteq> None \<longrightarrow> data ht ! i = data ht ! j \<longrightarrow> i = j)"

definition lotInv :: "(nat \<Rightarrow> nat) \<Rightarrow> ParkingLot \<Rightarrow> (nat \<Rightarrow> nat list) \<Rightarrow> bool" where
  "lotInv hashAddress s Q =
     (case hashtable s of
        None \<Rightarrow> False
      | Some ht \<Rightarrow>
          Hashtable_size ht \<noteq> 0 \<and> injectiveSlots ht
          \<and> (\<forall>i < Hashtable_size ht. slotInv hashAddress s ht i (Q i)))"

text \<open>
  The state in the middle of a rehash, with the new spine \<open>nh\<close> not installed yet, the
  reusable buckets \<open>rs\<close> and the list \<open>moved\<close> of the records re-enqueued so far:
  no bucket is in two slots of \<open>nh\<close>; the reusable buckets are distinct, allocated, empty and
  in no slot of \<open>nh\<close>; and the queue of every slot \<open>i\<close> of \<open>nh\<close> holds the records of \<open>moved\<close>
  whose address hashes to \<open>i\<close>, in the order of \<open>moved\<close>.
\<close>

definition rehashInv :: "(nat \<Rightarrow> nat) \<Rightarrow> Hashtable \<Rightarrow> nat list \<Rightarrow> ParkingLot \<Rightarrow> nat list \<Rightarrow> bool" where
  "rehashInv hashAddress nh rs s moved =
     (injectiveSlots nh \<and> distinct rs
      \<and> (\<forall>b \<in> set rs. b < bucketCount s
             \<and> buckets s b = \<lparr>queueHead = None, queueTail = None\<rparr>
             \<and> Some b \<notin> set (data nh))
      \<and> (\<forall>i < Hashtable_size nh.
            slotInv hashAddress s nh i
              (filter (\<lambda>p. hashAddress (address (heap s p)) mod Hashtable_size nh = i) moved)))"

section \<open>Scenarios\<close>

text \<open>
  Not code of the program: the threads of a list call \<^verbatim>\<open>parkConditionally\<close> one after the
  other, each with its own record and address and with a validation that accepts; a call
  that fails ends the scenario with its error.
\<close>

fun parkEach :: "(nat \<Rightarrow> nat) \<Rightarrow> (nat \<times> nat) list \<Rightarrow> ParkingLot \<Rightarrow> error + ParkingLot" where
  "parkEach hashAddress [] s = Inr s"
| "parkEach hashAddress ((me, addr) # rest) s =
     (case parkConditionally hashAddress me addr (\<lambda>_. True) () s of
        Inl e \<Rightarrow> Inl e
      | Inr (outcome, s') \<Rightarrow> parkEach hashAddress rest s')"

section \<open>Example states\<close>

text \<open>
  A stand-in for the pointer hash, and parking lots with a spine of three slots. The
  addresses 1 and 4 both hash to slot 1. In \<open>emptyLot\<close> the three slots are null, no bucket
  is allocated and no thread is parked. The other states are reached from it by calls of
  \<^verbatim>\<open>parkConditionally\<close> (see the lemmas on the example states below); their slot 1 holds the
  bucket 0.
  In \<open>loneWaiterLot\<close> the thread 7 alone is parked, on the address 1.
  In \<open>sharedBucketLot\<close> the queue is 7, 8: thread 7 is parked on the address 1 and thread 8
  on the address 4.
  In \<open>fifoLot\<close> the queue is 5, 6, 7: the threads 5 and 7 are parked on the address 1 and the
  thread 6 on the address 4.
\<close>

definition exampleHash :: "nat \<Rightarrow> nat" where
  "exampleHash addr = addr"

definition idleThreads :: ThreadDataHeap where
  "idleThreads p = \<lparr>threadIdentifier = p, shouldPark = False, address = 0, nextInQueue = None\<rparr>"

definition emptyLot :: ParkingLot where
  "emptyLot =
     \<lparr>hashtable = Some \<lparr>data = [None, None, None]\<rparr>,
      buckets = (\<lambda>b. \<lparr>queueHead = None, queueTail = None\<rparr>),
      bucketCount = 0,
      heap = idleThreads,
      notified = []\<rparr>"

definition loneWaiterLot :: ParkingLot where
  "loneWaiterLot =
     \<lparr>hashtable = Some \<lparr>data = [None, Some 0, None]\<rparr>,
      buckets = (\<lambda>b. \<lparr>queueHead = None, queueTail = None\<rparr>)
        (0 := \<lparr>queueHead = Some 7, queueTail = Some 7\<rparr>),
      bucketCount = 1,
      heap = idleThreads
        (7 := \<lparr>threadIdentifier = 7, shouldPark = True, address = 1, nextInQueue = None\<rparr>),
      notified = []\<rparr>"

definition sharedBucketLot :: ParkingLot where
  "sharedBucketLot =
     \<lparr>hashtable = Some \<lparr>data = [None, Some 0, None]\<rparr>,
      buckets = (\<lambda>b. \<lparr>queueHead = None, queueTail = None\<rparr>)
        (0 := \<lparr>queueHead = Some 7, queueTail = Some 8\<rparr>),
      bucketCount = 1,
      heap = idleThreads
        (7 := \<lparr>threadIdentifier = 7, shouldPark = True, address = 1, nextInQueue = Some 8\<rparr>,
         8 := \<lparr>threadIdentifier = 8, shouldPark = True, address = 4, nextInQueue = None\<rparr>),
      notified = []\<rparr>"

definition fifoLot :: ParkingLot where
  "fifoLot =
     \<lparr>hashtable = Some \<lparr>data = [None, Some 0, None]\<rparr>,
      buckets = (\<lambda>b. \<lparr>queueHead = None, queueTail = None\<rparr>)
        (0 := \<lparr>queueHead = Some 5, queueTail = Some 7\<rparr>),
      bucketCount = 1,
      heap = idleThreads
        (5 := \<lparr>threadIdentifier = 5, shouldPark = True, address = 1, nextInQueue = Some 6\<rparr>,
         6 := \<lparr>threadIdentifier = 6, shouldPark = True, address = 4, nextInQueue = Some 7\<rparr>,
         7 := \<lparr>threadIdentifier = 7, shouldPark = True, address = 1, nextInQueue = None\<rparr>),
      notified = []\<rparr>"

text \<open>
  The memory of \<open>sharedBucketLot\<close> once the functor of \<^verbatim>\<open>parkConditionally\<close> has set the
  record of the thread 9 to the address 1, before the record is enqueued.
\<close>

definition arrivalHeap :: ThreadDataHeap where
  "arrivalHeap = (heap sharedBucketLot)
     (9 := \<lparr>threadIdentifier = 9, shouldPark = True, address = 1, nextInQueue = None\<rparr>)"

section \<open>The example states are reached from the empty parking lot\<close>

lemma idleThreads_fields [simp]:
  "threadIdentifier (idleThreads p) = p" "\<not> shouldPark (idleThreads p)"
  "address (idleThreads p) = 0" "nextInQueue (idleThreads p) = None"
  by (simp_all add: idleThreads_def)

lemmas park_eval = parkConditionally_def enqueue_def materializeBucket_def loadSlot_def
  storeSlot_def newBucket_def Bucket_enqueue_def parkingWait_def Hashtable_size_def exampleHash_def

lemma loneWaiterLot_reached:
  "parkConditionally exampleHash 7 1 (\<lambda>u. True) () emptyLot = Inr (Asleep, loneWaiterLot)"
  by (simp add: park_eval emptyLot_def loneWaiterLot_def idleThreads_def)

lemma sharedBucketLot_reached:
  "parkConditionally exampleHash 8 4 (\<lambda>u. True) () loneWaiterLot = Inr (Asleep, sharedBucketLot)"
  by (auto simp: park_eval loneWaiterLot_def sharedBucketLot_def idleThreads_def fun_eq_iff)

lemma fifoLot_reached:
  "parkEach exampleHash [(5, 1), (6, 4), (7, 1)] emptyLot = Inr fifoLot"
  by (auto simp: park_eval emptyLot_def fifoLot_def idleThreads_def fun_eq_iff)

section \<open>Properties of Lock\<close>

lemma hasParkedBit_excludes_isHeldBit:
  "m AND hasParkedBit \<noteq> 0 \<Longrightarrow> m \<noteq> isHeldBit"
  by (auto simp: hasParkedBit_def isHeldBit_def)

text \<open>
  Claim C9. The fast path of \<^verbatim>\<open>Lock::unlock\<close> releases the lock only when the byte is
  exactly \<open>isHeldBit\<close>: the lock is held and \<open>hasParkedBit\<close> is clear, and the byte
  becomes 0. Whenever \<open>hasParkedBit\<close> is set, whatever the weak CAS does, the CAS fails,
  the byte is left as it was and \<^verbatim>\<open>unlockSlow\<close> is invoked.
\<close>

theorem unlock_fast_path_only_when_exactly_held:
  "(unlock spurious m = FastPathReleased m' \<longrightarrow>
      m = isHeldBit \<and> isHeld m \<and> m AND hasParkedBit = 0 \<and> m' = 0)
   \<and> (m AND hasParkedBit \<noteq> 0 \<longrightarrow> unlock spurious m = CallsUnlockSlow m)"
proof (intro conjI impI)
  assume fast: "unlock spurious m = FastPathReleased m'"
  then have eq: "m = isHeldBit" and "m' = 0"
    by (auto simp: unlock_def compareExchangeWeak_def split: if_splits)
  then show "m = isHeldBit" "m' = 0" by simp_all
  from eq show "isHeld m" "m AND hasParkedBit = 0"
    by (simp_all add: isHeld_def isHeldBit_def hasParkedBit_def)
next
  assume "m AND hasParkedBit \<noteq> 0"
  then have "m \<noteq> isHeldBit" by (rule hasParkedBit_excludes_isHeldBit)
  then show "unlock spurious m = CallsUnlockSlow m"
    by (simp add: unlock_def compareExchangeWeak_def)
qed

theorem unlock_fast_path_only_when_exactly_held_witness:
  "unlock False 1 = FastPathReleased 0 \<and> (1 :: 8 word) = isHeldBit \<and> isHeld 1
   \<and> (3 :: 8 word) AND hasParkedBit \<noteq> 0 \<and> unlock False 3 = CallsUnlockSlow 3
   \<and> unlock True 3 = CallsUnlockSlow 3"
proof -
  have fast: "unlock False 1 = FastPathReleased 0"
    by (simp add: unlock_def compareExchangeWeak_def isHeldBit_def)
  have parked: "(3 :: 8 word) AND hasParkedBit \<noteq> 0"
    by (simp add: hasParkedBit_def)
  from unlock_fast_path_only_when_exactly_held [of False 1 0] fast
  have "(1 :: 8 word) = isHeldBit \<and> isHeld 1" by simp
  moreover from unlock_fast_path_only_when_exactly_held [of False 3 0] parked
  have "unlock False 3 = CallsUnlockSlow 3" by simp
  moreover from unlock_fast_path_only_when_exactly_held [of True 3 0] parked
  have "unlock True 3 = CallsUnlockSlow 3" by simp
  ultimately show ?thesis using fast parked by simp
qed

section \<open>The queue loop on well-formed queues\<close>

lemma chain_append: "chain h p (xs @ ys) q = (\<exists>r. chain h p xs r \<and> chain h r ys q)"
  by (induction xs arbitrary: p) auto

lemma chain_upd_outside: "x \<notin> set xs \<Longrightarrow> chain (h(x := v)) p xs q = chain h p xs q"
  by (induction xs arbitrary: p) auto

lemma chain_functional: "chain h p xs None \<Longrightarrow> chain h p ys None \<Longrightarrow> xs = ys"
proof (induction xs arbitrary: p ys)
  case Nil
  then show ?case by (cases ys) auto
next
  case (Cons x xs)
  then show ?case by (cases ys) auto
qed

lemma chain_head_fresh:
  assumes "chain h (nextInQueue (h x)) xs None"
  shows "x \<notin> set xs"
proof
  assume "x \<in> set xs"
  then obtain as bs where xs: "xs = as @ x # bs"
    by (auto simp: in_set_conv_decomp)
  with assms have "chain h (nextInQueue (h x)) bs None"
    by (auto simp: chain_append)
  with assms have "xs = bs" by (rule chain_functional)
  with xs show False by simp
qed

lemma chain_distinct: "chain h p xs None \<Longrightarrow> distinct xs"
proof (induction xs arbitrary: p)
  case Nil
  then show ?case by simp
next
  case (Cons x xs)
  then show ?case by (auto dest: chain_head_fresh)
qed

lemma dequeueRun_cong:
  "(\<And>p. p \<in> set zs \<Longrightarrow> h' p = h p) \<Longrightarrow> dequeueRun f h' fs zs = dequeueRun f h fs zs"
  by (induction zs arbitrary: fs) (auto split: prod.splits DequeueResult.splits)

lemma linksOnly_refl: "linksOnly h h"
  by (simp add: linksOnly_def)

lemma linksOnly_trans: "linksOnly h h1 \<Longrightarrow> linksOnly h1 h2 \<Longrightarrow> linksOnly h h2"
  unfolding linksOnly_def
proof
  fix p
  assume a: "\<forall>p. h1 p = (h p)\<lparr>nextInQueue := nextInQueue (h1 p)\<rparr>"
    and b: "\<forall>p. h2 p = (h1 p)\<lparr>nextInQueue := nextInQueue (h2 p)\<rparr>"
  from a have "h1 p = (h p)\<lparr>nextInQueue := nextInQueue (h1 p)\<rparr>" ..
  moreover from b have "h2 p = (h1 p)\<lparr>nextInQueue := nextInQueue (h2 p)\<rparr>" ..
  ultimately have "h2 p = (h p)\<lparr>nextInQueue := nextInQueue (h1 p), nextInQueue := nextInQueue (h2 p)\<rparr>"
    by simp
  then show "h2 p = (h p)\<lparr>nextInQueue := nextInQueue (h2 p)\<rparr>" by simp
qed

lemma linksOnly_upd: "linksOnly h (h(x := (h x)\<lparr>nextInQueue := v\<rparr>))"
  by (simp add: linksOnly_def)

lemma readLink_linkAfter:
  "chain h (queueHead b) ys r \<Longrightarrow> readLink (linkAfter ys) (b, h) = r"
  by (cases ys rule: rev_cases) (auto simp: linkAfter_def chain_append)

lemma lastOpt_snoc: "lastOpt (ys @ [z]) = Some z"
  by (simp add: lastOpt_def)

lemma linkAfter_snoc: "linkAfter (ys @ [z]) = NextInQueueLink z"
  by (simp add: linkAfter_def)

lemma removeCurrent_unlinks:
  assumes ch: "chain h (queueHead b) (ys @ z # zs) None"
    and tl: "queueTail b = lastOpt (ys @ z # zs)"
    and rc: "removeCurrent (linkAfter ys) (lastOpt ys) z (b, h) = (b', h')"
  shows "chain h' (queueHead b') (ys @ zs) None \<and> queueTail b' = lastOpt (ys @ zs)
     \<and> nextInQueue (h' z) = None \<and> linksOnly h h'
     \<and> (\<forall>p. p \<notin> set (ys @ [z]) \<longrightarrow> h' p = h p)"
proof -
  from ch have dist: "distinct (ys @ z # zs)" by (rule chain_distinct)
  from ch obtain r where pre: "chain h (queueHead b) ys r" and r: "r = Some z"
    and post: "chain h (nextInQueue (h z)) zs None"
    by (auto simp: chain_append)
  have tail_eq: "(queueTail b = Some z) = (zs = [])"
    using tl dist by (auto simp: lastOpt_def)
  show ?thesis
  proof (cases ys rule: rev_cases)
    case Nil
    with rc have b': "b' = (if zs = [] then b\<lparr>queueTail := None\<rparr> else b)\<lparr>queueHead := nextInQueue (h z)\<rparr>"
      and h': "h' = h(z := (h z)\<lparr>nextInQueue := None\<rparr>)"
      by (auto simp: removeCurrent_def linkAfter_def lastOpt_def tail_eq)
    from dist have "z \<notin> set zs" by simp
    with post have "chain h' (nextInQueue (h z)) zs None"
      by (simp add: h' chain_upd_outside)
    moreover have "queueTail b' = lastOpt zs"
      using tl by (auto simp: b' lastOpt_def)
    ultimately show ?thesis
      using Nil by (auto simp: b' h' linksOnly_upd)
  next
    case (snoc ys' y)
    from dist snoc have yz: "y \<noteq> z" and y_ys': "y \<notin> set ys'" and z_ys': "z \<notin> set ys'"
      and y_zs: "y \<notin> set zs" and z_zs: "z \<notin> set zs"
      by auto
    let ?h1 = "h(y := (h y)\<lparr>nextInQueue := nextInQueue (h z)\<rparr>)"
    from rc snoc have b': "b' = (if zs = [] then b\<lparr>queueTail := Some y\<rparr> else b)"
      and h': "h' = ?h1(z := (?h1 z)\<lparr>nextInQueue := None\<rparr>)"
      by (auto simp: removeCurrent_def linkAfter_def lastOpt_def tail_eq)
    from pre snoc have pre': "chain h (queueHead b) ys' (Some y)"
      by (auto simp: chain_append)
    have "chain h' (queueHead b) ys' (Some y)"
      using pre' y_ys' z_ys' by (simp add: h' chain_upd_outside)
    moreover have "nextInQueue (h' y) = nextInQueue (h z)"
      using yz by (simp add: h')
    moreover have "chain h' (nextInQueue (h z)) zs None"
      using post y_zs z_zs by (simp add: h' chain_upd_outside)
    ultimately have "chain h' (queueHead b') (ys @ zs) None"
      by (auto simp: snoc chain_append b')
    moreover have "queueTail b' = lastOpt (ys @ zs)"
      using tl snoc by (auto simp: b' lastOpt_def)
    moreover have "linksOnly h h'"
      using yz by (auto simp: h' linksOnly_def)
    ultimately show ?thesis
      using snoc yz by (auto simp: h')
  qed
qed

lemma genericDequeue_loop_correct:
  assumes "chain h (queueHead b) (ys @ zs) None" and "queueTail b = lastOpt (ys @ zs)"
  shows "\<exists>b' h'. genericDequeue_loop f (linkAfter ys) (lastOpt ys) (b, h) fs
           = Some ((b', h'), snd (snd (dequeueRun f h fs zs)))
     \<and> chain h' (queueHead b') (ys @ fst (dequeueRun f h fs zs)) None
     \<and> queueTail b' = lastOpt (ys @ fst (dequeueRun f h fs zs))
     \<and> (\<forall>p \<in> set (fst (snd (dequeueRun f h fs zs))). nextInQueue (h' p) = None)
     \<and> linksOnly h h' \<and> (\<forall>p. p \<notin> set (ys @ zs) \<longrightarrow> h' p = h p)
     \<and> (fst (snd (dequeueRun f h fs zs)) = [] \<longrightarrow> b' = b \<and> h' = h)"
  using assms
proof (induction zs arbitrary: ys b h fs)
  case Nil
  then have "readLink (linkAfter ys) (b, h) = None"
    by (auto intro: readLink_linkAfter)
  then show ?case
    using Nil by (subst genericDequeue_loop.simps) (simp add: linksOnly_refl)
next
  case (Cons z zs)
  from Cons.prems(1) have dist: "distinct (ys @ z # zs)" by (rule chain_distinct)
  from Cons.prems(1) have "chain h (queueHead b) ys (Some z)"
    by (auto simp: chain_append)
  then have rd: "readLink (linkAfter ys) (b, h) = Some z"
    by (rule readLink_linkAfter)
  obtain verdict fs' where fz: "f fs z (h z) = (verdict, fs')"
    by (cases "f fs z (h z)")
  obtain b1 h1 where rc: "removeCurrent (linkAfter ys) (lastOpt ys) z (b, h) = (b1, h1)"
    by (cases "removeCurrent (linkAfter ys) (lastOpt ys) z (b, h)")
  from removeCurrent_unlinks [OF Cons.prems rc]
  have ch1: "chain h1 (queueHead b1) (ys @ zs) None" and tl1: "queueTail b1 = lastOpt (ys @ zs)"
    and nz: "nextInQueue (h1 z) = None" and lo1: "linksOnly h h1"
    and fr1: "\<forall>p. p \<notin> set (ys @ [z]) \<longrightarrow> h1 p = h p"
    by simp_all
  show ?case
  proof (cases verdict)
    case Ignore
    from Cons.prems have "chain h (queueHead b) ((ys @ [z]) @ zs) None"
      and "queueTail b = lastOpt ((ys @ [z]) @ zs)" by simp_all
    from Cons.IH [OF this, of fs'] obtain b' h' where
      "genericDequeue_loop f (NextInQueueLink z) (Some z) (b, h) fs'
         = Some ((b', h'), snd (snd (dequeueRun f h fs' zs)))"
      "chain h' (queueHead b') (ys @ z # fst (dequeueRun f h fs' zs)) None"
      "queueTail b' = lastOpt (ys @ z # fst (dequeueRun f h fs' zs))"
      "\<forall>p \<in> set (fst (snd (dequeueRun f h fs' zs))). nextInQueue (h' p) = None"
      "linksOnly h h'" "\<forall>p. p \<notin> set (ys @ z # zs) \<longrightarrow> h' p = h p"
      "fst (snd (dequeueRun f h fs' zs)) = [] \<longrightarrow> b' = b \<and> h' = h"
      by (auto simp: linkAfter_snoc lastOpt_snoc)
    then show ?thesis
      using rd fz Ignore
      by (subst genericDequeue_loop.simps) (auto split: prod.splits)
  next
    case RemoveAndContinue
    from dist fr1 have same: "\<And>p. p \<in> set zs \<Longrightarrow> h1 p = h p" by auto
    have run: "dequeueRun f h1 fs' zs = dequeueRun f h fs' zs"
      by (rule dequeueRun_cong) (rule same)
    from Cons.IH [OF ch1 tl1, of fs'] obtain b' h' where
      loop: "genericDequeue_loop f (linkAfter ys) (lastOpt ys) (b1, h1) fs'
         = Some ((b', h'), snd (snd (dequeueRun f h fs' zs)))"
      and ch': "chain h' (queueHead b') (ys @ fst (dequeueRun f h fs' zs)) None"
      and tl': "queueTail b' = lastOpt (ys @ fst (dequeueRun f h fs' zs))"
      and rm': "\<forall>p \<in> set (fst (snd (dequeueRun f h fs' zs))). nextInQueue (h' p) = None"
      and lo': "linksOnly h1 h'" and fr': "\<forall>p. p \<notin> set (ys @ zs) \<longrightarrow> h' p = h1 p"
      by (auto simp: run)
    from dist fr' nz have "nextInQueue (h' z) = None" by auto
    moreover from lo1 lo' have "linksOnly h h'" by (rule linksOnly_trans)
    moreover from fr1 fr' have "\<forall>p. p \<notin> set (ys @ z # zs) \<longrightarrow> h' p = h p" by auto
    ultimately show ?thesis
      using rd fz RemoveAndContinue rc loop ch' tl' rm'
      by (subst genericDequeue_loop.simps) (auto split: prod.splits)
  next
    case RemoveAndStop
    from fr1 have "\<forall>p. p \<notin> set (ys @ z # zs) \<longrightarrow> h1 p = h p" by auto
    then show ?thesis
      using rd fz RemoveAndStop rc ch1 tl1 nz lo1
      by (subst genericDequeue_loop.simps) (auto split: prod.splits)
  qed
qed

section \<open>genericDequeue, dequeue and the functors\<close>

lemma genericDequeue_correct:
  assumes "bucketQueue h b xs"
  shows "\<exists>b' h'. genericDequeue f (b, h) fs = Some ((b', h'), snd (snd (dequeueRun f h fs xs)))
     \<and> bucketQueue h' b' (fst (dequeueRun f h fs xs))
     \<and> (\<forall>p \<in> set (fst (snd (dequeueRun f h fs xs))). nextInQueue (h' p) = None)
     \<and> linksOnly h h' \<and> (\<forall>p. p \<notin> set xs \<longrightarrow> h' p = h p)
     \<and> (fst (snd (dequeueRun f h fs xs)) = [] \<longrightarrow> b' = b \<and> h' = h)"
proof (cases "queueHead b = None")
  case True
  with assms have "xs = []" by (cases xs) (auto simp: bucketQueue_def)
  with True assms show ?thesis
    by (simp add: genericDequeue_def linksOnly_refl)
next
  case False
  from assms have "chain h (queueHead b) ([] @ xs) None" and "queueTail b = lastOpt ([] @ xs)"
    by (simp_all add: bucketQueue_def)
  from genericDequeue_loop_correct [OF this, of f fs]
  have loop: "\<exists>b' h'. genericDequeue_loop f QueueHeadLink None (b, h) fs
           = Some ((b', h'), snd (snd (dequeueRun f h fs xs)))
     \<and> bucketQueue h' b' (fst (dequeueRun f h fs xs))
     \<and> (\<forall>p \<in> set (fst (snd (dequeueRun f h fs xs))). nextInQueue (h' p) = None)
     \<and> linksOnly h h' \<and> (\<forall>p. p \<notin> set xs \<longrightarrow> h' p = h p)
     \<and> (fst (snd (dequeueRun f h fs xs)) = [] \<longrightarrow> b' = b \<and> h' = h)"
    by (simp add: linkAfter_def lastOpt_def bucketQueue_def)
  from False have "genericDequeue f (b, h) fs = genericDequeue_loop f QueueHeadLink None (b, h) fs"
    by (auto simp: genericDequeue_def)
  with loop show ?thesis by simp
qed

lemma find_Some_holds: "find P xs = Some a \<Longrightarrow> P a \<and> a \<in> set xs"
  by (induction xs) (auto split: if_splits)

lemma dequeueRun_unparkOne:
  "dequeueRun (unparkOne_functor addr) h fs xs =
     (case find (parkedOn h addr) xs of
        None \<Rightarrow> (xs, [], fs)
      | Some p \<Rightarrow> (remove1 p xs, [p], Some p))"
  by (induction xs arbitrary: fs)
     (auto simp: unparkOne_functor_def parkedOn_def split: option.splits dest: find_Some_holds)

lemma dequeueRun_unparkAll:
  "dequeueRun (unparkAll_functor addr) h fs xs =
     (filter (\<lambda>p. \<not> parkedOn h addr p) xs, filter (parkedOn h addr) xs,
      fs @ filter (parkedOn h addr) xs)"
  by (induction xs arbitrary: fs) (auto simp: unparkAll_functor_def parkedOn_def)

lemma dequeueRun_first:
  "dequeueRun (\<lambda>result element _. (RemoveAndStop, Some element)) h fs xs =
     (case xs of [] \<Rightarrow> ([], [], fs) | x # rest \<Rightarrow> (rest, [x], Some x))"
  by (cases xs) auto

lemma dequeue_correct:
  assumes "queueAt H s addr xs"
  shows "\<exists>s'. dequeue H addr f fs s
           = Some (Inr (fst (dequeueRun f (heap s) fs xs) \<noteq> [],
                        snd (snd (dequeueRun f (heap s) fs xs)), s'))
     \<and> queueAt H s' addr (fst (dequeueRun f (heap s) fs xs))
     \<and> hashtable s' = hashtable s \<and> bucketCount s' = bucketCount s \<and> notified s' = notified s
     \<and> (\<forall>p \<in> set (fst (snd (dequeueRun f (heap s) fs xs))). nextInQueue (heap s' p) = None)
     \<and> linksOnly (heap s) (heap s') \<and> (\<forall>p. p \<notin> set xs \<longrightarrow> heap s' p = heap s p)
     \<and> (fst (snd (dequeueRun f (heap s) fs xs)) = [] \<longrightarrow> s' = s)"
proof (cases "hashtable s")
  case None
  with assms show ?thesis
    by (simp add: queueAt_def dequeue_def linksOnly_refl)
next
  case (Some ht)
  with assms have sz: "Hashtable_size ht \<noteq> 0" by (simp add: queueAt_def)
  show ?thesis
  proof (cases "data ht ! (H addr mod Hashtable_size ht)")
    case None
    with assms Some sz show ?thesis
      by (simp add: queueAt_def dequeue_def linksOnly_refl)
  next
    case (Some bucket)
    with assms \<open>hashtable s = Some ht\<close> have "bucketQueue (heap s) (buckets s bucket) xs"
      by (simp add: queueAt_def)
    from genericDequeue_correct [OF this, of f fs] obtain b' h' where
      gd: "genericDequeue f (buckets s bucket, heap s) fs
             = Some ((b', h'), snd (snd (dequeueRun f (heap s) fs xs)))"
      and bq: "bucketQueue h' b' (fst (dequeueRun f (heap s) fs xs))"
      and rm: "\<forall>p \<in> set (fst (snd (dequeueRun f (heap s) fs xs))). nextInQueue (h' p) = None"
      and lo: "linksOnly (heap s) h'" and fr: "\<forall>p. p \<notin> set xs \<longrightarrow> h' p = heap s p"
      and same: "fst (snd (dequeueRun f (heap s) fs xs)) = [] \<longrightarrow> b' = buckets s bucket \<and> h' = heap s"
      by blast
    have hd: "(queueHead b' \<noteq> None) = (fst (dequeueRun f (heap s) fs xs) \<noteq> [])"
      using bq by (cases "fst (dequeueRun f (heap s) fs xs)") (auto simp: bucketQueue_def)
    let ?s' = "s\<lparr>buckets := (buckets s)(bucket := b'), heap := h'\<rparr>"
    have "dequeue H addr f fs s
           = Some (Inr (fst (dequeueRun f (heap s) fs xs) \<noteq> [],
                        snd (snd (dequeueRun f (heap s) fs xs)), ?s'))"
      using \<open>hashtable s = Some ht\<close> sz Some gd hd by (simp add: dequeue_def)
    moreover have "queueAt H ?s' addr (fst (dequeueRun f (heap s) fs xs))"
      using \<open>hashtable s = Some ht\<close> sz Some bq by (simp add: queueAt_def)
    moreover have "fst (snd (dequeueRun f (heap s) fs xs)) = [] \<longrightarrow> ?s' = s"
      using same by auto
    ultimately show ?thesis
      using rm lo fr by (intro exI [of _ ?s']) simp
  qed
qed

lemma chain_next_cong:
  "(\<And>q. q \<in> set xs \<Longrightarrow> nextInQueue (h' q) = nextInQueue (h q)) \<Longrightarrow> chain h' p xs r = chain h p xs r"
  by (induction xs arbitrary: p) auto

lemma bucketQueue_next_cong:
  "(\<And>q. q \<in> set xs \<Longrightarrow> nextInQueue (h' q) = nextInQueue (h q)) \<Longrightarrow> bucketQueue h' b xs = bucketQueue h b xs"
  by (simp add: bucketQueue_def chain_next_cong [of xs h' h])

lemma linksOnly_address: "linksOnly h h' \<Longrightarrow> address (h' p) = address (h p)"
proof -
  assume "linksOnly h h'"
  then have "h' p = (h p)\<lparr>nextInQueue := nextInQueue (h' p)\<rparr>" by (simp add: linksOnly_def)
  then have "address (h' p) = address ((h p)\<lparr>nextInQueue := nextInQueue (h' p)\<rparr>)" by simp
  then show ?thesis by simp
qed

lemma linksOnly_shouldPark: "linksOnly h h' \<Longrightarrow> shouldPark (h' p) = shouldPark (h p)"
proof -
  assume "linksOnly h h'"
  then have "h' p = (h p)\<lparr>nextInQueue := nextInQueue (h' p)\<rparr>" by (simp add: linksOnly_def)
  then have "shouldPark (h' p) = shouldPark ((h p)\<lparr>nextInQueue := nextInQueue (h' p)\<rparr>)" by simp
  then show ?thesis by simp
qed

lemma queueAt_signalThread: "queueAt H (signalThread s p) addr xs = queueAt H s addr xs"
proof -
  have "\<And>b. bucketQueue (heap (signalThread s p)) b xs = bucketQueue (heap s) b xs"
    by (rule bucketQueue_next_cong) (simp add: signalThread_def)
  then show ?thesis
    by (simp add: queueAt_def signalThread_def split: option.splits)
qed

lemma unparkOne_none:
  assumes "queueAt H s addr xs" and "find (parkedOn (heap s) addr) xs = None"
  shows "unparkOne H addr s = Some (Inr (False, s))"
proof -
  from dequeue_correct [OF assms(1), of "unparkOne_functor addr" None] assms(2)
  show ?thesis
    by (auto simp: unparkOne_def dequeueRun_unparkOne)
qed

lemma unparkOne_some:
  assumes "queueAt H s addr xs" and "find (parkedOn (heap s) addr) xs = Some p"
  shows "\<exists>s'. unparkOne H addr s = Some (Inr (remove1 p xs \<noteq> [], s'))
     \<and> queueAt H s' addr (remove1 p xs) \<and> notified s' = notified s @ [p]
     \<and> \<not> shouldPark (heap s' p) \<and> nextInQueue (heap s' p) = None
     \<and> (\<forall>q. address (heap s' q) = address (heap s q))
     \<and> (\<forall>q. q \<noteq> p \<longrightarrow> shouldPark (heap s' q) = shouldPark (heap s q))
     \<and> hashtable s' = hashtable s \<and> bucketCount s' = bucketCount s"
proof -
  from dequeue_correct [OF assms(1), of "unparkOne_functor addr" None] assms(2)
  obtain s1 where dq: "dequeue H addr (unparkOne_functor addr) None s
        = Some (Inr (remove1 p xs \<noteq> [], Some p, s1))"
    and q1: "queueAt H s1 addr (remove1 p xs)"
    and same: "hashtable s1 = hashtable s" "bucketCount s1 = bucketCount s" "notified s1 = notified s"
    and nx: "nextInQueue (heap s1 p) = None" and lo: "linksOnly (heap s) (heap s1)"
    by (auto simp: dequeueRun_unparkOne)
  let ?s' = "signalThread s1 p"
  from dq have "unparkOne H addr s = Some (Inr (remove1 p xs \<noteq> [], ?s'))"
    by (simp add: unparkOne_def)
  moreover from q1 have "queueAt H ?s' addr (remove1 p xs)"
    by (simp add: queueAt_signalThread)
  moreover have "\<forall>q. address (heap ?s' q) = address (heap s q)"
    using linksOnly_address [OF lo] by (simp add: signalThread_def)
  moreover have "\<forall>q. q \<noteq> p \<longrightarrow> shouldPark (heap ?s' q) = shouldPark (heap s q)"
    using linksOnly_shouldPark [OF lo] by (simp add: signalThread_def)
  ultimately show ?thesis
    using same nx by (intro exI [of _ ?s']) (simp add: signalThread_def)
qed

section \<open>unparkOne\<close>

lemma queueAt_sharedBucketLot_1: "queueAt exampleHash sharedBucketLot 1 [7, 8]"
  by (simp add: queueAt_def bucketQueue_def lastOpt_def sharedBucketLot_def exampleHash_def
      Hashtable_size_def)

lemma queueAt_sharedBucketLot_4: "queueAt exampleHash sharedBucketLot 4 [7, 8]"
  by (simp add: queueAt_def bucketQueue_def lastOpt_def sharedBucketLot_def exampleHash_def
      Hashtable_size_def)

text \<open>
  Claim C1, as stated, fails on the code. In \<open>loneWaiterLot\<close> the thread 7 is parked on the
  address 1. \<^verbatim>\<open>unparkOne(1)\<close> finds it, removes it from the queue, clears its
  \<^verbatim>\<open>shouldPark\<close> and notifies it, and returns false, because the bucket's queue is empty
  after the removal.
\<close>

theorem unparkOne_false_although_unparked:
  "unparkOne exampleHash 1 loneWaiterLot =
     Some (Inr (False,
       loneWaiterLot
         \<lparr>buckets := (buckets loneWaiterLot)(0 := \<lparr>queueHead = None, queueTail = None\<rparr>),
          heap := (heap loneWaiterLot)
            (7 := \<lparr>threadIdentifier = 7, shouldPark = False, address = 1, nextInQueue = None\<rparr>),
          notified := [7]\<rparr>))"
  apply (simp add: unparkOne_def dequeue_def loneWaiterLot_def exampleHash_def
      Hashtable_size_def genericDequeue_def)
  apply (subst genericDequeue_loop.simps)
  apply (simp add: unparkOne_functor_def removeCurrent_def signalThread_def)
  done

text \<open>
  Claim C1, amended. Let \<open>xs\<close> be the queue of the bucket that \<open>addr\<close> hashes to (empty when
  the hashtable or the bucket does not exist). \<^verbatim>\<open>unparkOne(addr)\<close> returns, and it returns
  true if and only if a record parked on \<open>addr\<close> was found and the queue of the bucket is not
  empty after its removal. When no queued record has the address it returns false and changes
  nothing. When one has, the first such record is removed from the queue, its
  \<^verbatim>\<open>shouldPark\<close> is cleared and it is notified, whatever the returned boolean is.
\<close>

theorem unparkOne_true_iff_unparked_and_queue_nonempty:
  assumes "queueAt H s addr xs"
  shows "\<exists>result s'. unparkOne H addr s = Some (Inr (result, s'))
     \<and> (result \<longleftrightarrow> (\<exists>p. find (parkedOn (heap s) addr) xs = Some p \<and> remove1 p xs \<noteq> []))
     \<and> (find (parkedOn (heap s) addr) xs = None \<longrightarrow> \<not> result \<and> s' = s)
     \<and> (\<forall>p. find (parkedOn (heap s) addr) xs = Some p \<longrightarrow>
           queueAt H s' addr (remove1 p xs) \<and> notified s' = notified s @ [p]
           \<and> \<not> shouldPark (heap s' p))"
proof (cases "find (parkedOn (heap s) addr) xs")
  case None
  with assms have "unparkOne H addr s = Some (Inr (False, s))" by (rule unparkOne_none)
  with None show ?thesis by (intro exI [of _ False] exI [of _ s]) simp
next
  case (Some p)
  from unparkOne_some [OF assms Some] Some show ?thesis by auto
qed

theorem unparkOne_true_iff_unparked_and_queue_nonempty_witness:
  "queueAt exampleHash sharedBucketLot 4 [7, 8]
   \<and> find (parkedOn (heap sharedBucketLot) 4) [7, 8] = Some 8
   \<and> (\<exists>s'. unparkOne exampleHash 4 sharedBucketLot = Some (Inr (True, s'))
         \<and> queueAt exampleHash s' 4 [7] \<and> notified s' = [8] \<and> \<not> shouldPark (heap s' 8))"
proof -
  have found: "find (parkedOn (heap sharedBucketLot) 4) [7, 8] = Some 8"
    by (simp add: parkedOn_def sharedBucketLot_def)
  have start: "notified sharedBucketLot = []"
    by (simp add: sharedBucketLot_def)
  from unparkOne_true_iff_unparked_and_queue_nonempty [OF queueAt_sharedBucketLot_4]
  obtain result s' where run: "unparkOne exampleHash 4 sharedBucketLot = Some (Inr (result, s'))"
    and res: "result \<longleftrightarrow> (\<exists>p. find (parkedOn (heap sharedBucketLot) 4) [7, 8] = Some p
                \<and> remove1 p [7, 8] \<noteq> [])"
    and eff: "\<forall>p. find (parkedOn (heap sharedBucketLot) 4) [7, 8] = Some p \<longrightarrow>
           queueAt exampleHash s' 4 (remove1 p [7, 8]) \<and> notified s' = notified sharedBucketLot @ [p]
           \<and> \<not> shouldPark (heap s' p)"
    by blast
  from res found have "result" by simp
  moreover from eff found start
  have "queueAt exampleHash s' 4 [7] \<and> notified s' = [8] \<and> \<not> shouldPark (heap s' 8)" by simp
  ultimately show ?thesis
    using run found queueAt_sharedBucketLot_4 by auto
qed

text \<open>
  Claim C2. When \<^verbatim>\<open>unparkOne(addr)\<close> finds a record \<open>p\<close> parked on \<open>addr\<close> (the first one in
  the queue \<open>xs\<close> of the bucket), it removes and notifies \<open>p\<close>, and the boolean it returns says
  whether the queue of the bucket is non-empty after the removal. That queue may hold records
  parked on other addresses of the same bucket.
\<close>

theorem unparkOne_reports_remaining_queue:
  assumes "queueAt H s addr xs" and "find (parkedOn (heap s) addr) xs = Some p"
  shows "\<exists>s'. unparkOne H addr s = Some (Inr (remove1 p xs \<noteq> [], s'))
     \<and> queueAt H s' addr (remove1 p xs) \<and> notified s' = notified s @ [p]
     \<and> \<not> shouldPark (heap s' p)"
  using unparkOne_some [OF assms] by blast

theorem unparkOne_reports_remaining_queue_witness:
  "queueAt exampleHash sharedBucketLot 1 [7, 8]
   \<and> find (parkedOn (heap sharedBucketLot) 1) [7, 8] = Some 7
   \<and> find (parkedOn (heap sharedBucketLot) 1) [8] = None
   \<and> (\<exists>s'. unparkOne exampleHash 1 sharedBucketLot = Some (Inr (True, s'))
         \<and> queueAt exampleHash s' 1 [8] \<and> notified s' = [7] \<and> \<not> shouldPark (heap s' 7))"
proof -
  have found: "find (parkedOn (heap sharedBucketLot) 1) [7, 8] = Some 7"
    by (simp add: parkedOn_def sharedBucketLot_def)
  have other: "find (parkedOn (heap sharedBucketLot) 1) [8] = None"
    by (simp add: parkedOn_def sharedBucketLot_def)
  have start: "notified sharedBucketLot = []"
    by (simp add: sharedBucketLot_def)
  from unparkOne_reports_remaining_queue [OF queueAt_sharedBucketLot_1 found] start
  have "\<exists>s'. unparkOne exampleHash 1 sharedBucketLot = Some (Inr (True, s'))
         \<and> queueAt exampleHash s' 1 [8] \<and> notified s' = [7] \<and> \<not> shouldPark (heap s' 7)"
    by simp
  with found other queueAt_sharedBucketLot_1 show ?thesis by simp
qed

section \<open>unparkAll and the bucket invariant\<close>

lemma foldl_signalThread_notified: "notified (foldl signalThread s ps) = notified s @ ps"
  by (induction ps arbitrary: s) (simp_all add: signalThread_def)

lemma foldl_signalThread_heap:
  "heap (foldl signalThread s ps) q
     = (if q \<in> set ps then (heap s q)\<lparr>shouldPark := False\<rparr> else heap s q)"
  by (induction ps arbitrary: s) (auto simp: signalThread_def)

lemma foldl_signalThread_queueAt:
  "queueAt H (foldl signalThread s ps) addr xs = queueAt H s addr xs"
  by (induction ps arbitrary: s) (simp_all add: queueAt_signalThread)

text \<open>
  Claim C6. Let \<open>xs\<close> be the queue of the bucket that \<open>addr\<close> hashes to. \<^verbatim>\<open>unparkAll(addr)\<close>
  returns; the records removed and notified are exactly the records of \<open>xs\<close> parked on
  \<open>addr\<close>, in queue order, each with \<^verbatim>\<open>shouldPark\<close> cleared and \<^verbatim>\<open>nextInQueue\<close> null; the
  queue keeps the records parked on other addresses, in their order; no other record's
  \<^verbatim>\<open>shouldPark\<close> changes; and when no record of \<open>xs\<close> is parked on \<open>addr\<close> the state is
  unchanged.
\<close>

theorem unparkAll_removes_exactly_matching:
  assumes "queueAt H s addr xs"
  shows "\<exists>s'. unparkAll H addr s = Some (Inr s')
     \<and> queueAt H s' addr (filter (\<lambda>p. \<not> parkedOn (heap s) addr p) xs)
     \<and> notified s' = notified s @ filter (parkedOn (heap s) addr) xs
     \<and> (\<forall>p \<in> set (filter (parkedOn (heap s) addr) xs).
           \<not> shouldPark (heap s' p) \<and> nextInQueue (heap s' p) = None)
     \<and> (\<forall>p. p \<notin> set (filter (parkedOn (heap s) addr) xs) \<longrightarrow>
           shouldPark (heap s' p) = shouldPark (heap s p))
     \<and> (\<forall>p. address (heap s' p) = address (heap s p))
     \<and> (filter (parkedOn (heap s) addr) xs = [] \<longrightarrow> s' = s)"
proof -
  let ?woken = "filter (parkedOn (heap s) addr) xs"
  let ?kept = "filter (\<lambda>p. \<not> parkedOn (heap s) addr p) xs"
  from dequeue_correct [OF assms, of "unparkAll_functor addr" "[]"]
  obtain s1 where dq: "dequeue H addr (unparkAll_functor addr) [] s
        = Some (Inr (?kept \<noteq> [], ?woken, s1))"
    and q1: "queueAt H s1 addr ?kept"
    and nt: "notified s1 = notified s"
    and nx: "\<forall>p \<in> set ?woken. nextInQueue (heap s1 p) = None"
    and lo: "linksOnly (heap s) (heap s1)"
    and same: "?woken = [] \<longrightarrow> s1 = s"
    by (auto simp: dequeueRun_unparkAll)
  let ?s' = "foldl signalThread s1 ?woken"
  from dq have "unparkAll H addr s = Some (Inr ?s')"
    by (simp add: unparkAll_def)
  moreover from q1 have "queueAt H ?s' addr ?kept"
    by (simp add: foldl_signalThread_queueAt)
  moreover have "notified ?s' = notified s @ ?woken"
    by (simp add: foldl_signalThread_notified nt)
  moreover have "\<forall>p \<in> set ?woken. \<not> shouldPark (heap ?s' p) \<and> nextInQueue (heap ?s' p) = None"
    using nx by (simp add: foldl_signalThread_heap)
  moreover have "\<forall>p. p \<notin> set ?woken \<longrightarrow> shouldPark (heap ?s' p) = shouldPark (heap s p)"
    using linksOnly_shouldPark [OF lo] by (simp add: foldl_signalThread_heap)
  moreover have "\<forall>p. address (heap ?s' p) = address (heap s p)"
    using linksOnly_address [OF lo] by (simp add: foldl_signalThread_heap)
  moreover have "?woken = [] \<longrightarrow> ?s' = s"
    using same by simp
  ultimately show ?thesis by blast
qed

lemma dequeueRun_partition:
  "set (fst (dequeueRun f h fs zs)) \<union> set (fst (snd (dequeueRun f h fs zs))) = set zs"
proof (induction zs arbitrary: fs)
  case Nil
  show ?case by simp
next
  case (Cons z zs)
  obtain verdict fs' where fz: "f fs z (h z) = (verdict, fs')"
    by (cases "f fs z (h z)")
  obtain k r fs'' where run: "dequeueRun f h fs' zs = (k, r, fs'')"
    by (cases "dequeueRun f h fs' zs")
  from Cons.IH [of fs'] run have "set k \<union> set r = set zs" by simp
  then show ?case
    using fz run by (cases verdict) auto
qed

lemma bucketQueue_head_tail: "bucketQueue h b xs \<Longrightarrow> (queueHead b = None) = (queueTail b = None)"
  by (cases xs) (auto simp: bucketQueue_def lastOpt_def)

lemma Bucket_enqueue_appends:
  assumes bq: "bucketQueue h b xs" and fresh: "td \<notin> set xs" and nx: "nextInQueue (h td) = None"
  shows "bucketQueue (snd (Bucket_enqueue td (b, h))) (fst (Bucket_enqueue td (b, h))) (xs @ [td])
     \<and> linksOnly h (snd (Bucket_enqueue td (b, h)))
     \<and> (\<forall>p. p \<notin> set xs \<longrightarrow> snd (Bucket_enqueue td (b, h)) p = h p)"
proof (cases xs rule: rev_cases)
  case Nil
  with bq nx show ?thesis
    by (simp add: bucketQueue_def lastOpt_def Bucket_enqueue_def linksOnly_refl)
next
  case (snoc ys y)
  from bq have "distinct xs" by (auto simp: bucketQueue_def dest: chain_distinct)
  with snoc have y_ys: "y \<notin> set ys" by simp
  from fresh snoc have ne: "td \<noteq> y" by simp
  from bq snoc have tl: "queueTail b = Some y" and pre: "chain h (queueHead b) ys (Some y)"
    by (auto simp: bucketQueue_def lastOpt_def chain_append)
  let ?h' = "h(y := (h y)\<lparr>nextInQueue := Some td\<rparr>)"
  have "chain ?h' (queueHead b) ys (Some y)"
    using pre y_ys by (simp add: chain_upd_outside)
  then have "chain ?h' (queueHead b) (ys @ [y, td]) None"
    using ne nx by (simp add: chain_append)
  then show ?thesis
    using tl snoc by (simp add: bucketQueue_def lastOpt_def Bucket_enqueue_def linksOnly_upd)
qed

lemma Bucket_dequeue_correct:
  assumes "bucketQueue h b xs"
  shows "\<exists>b' h'. Bucket_dequeue (b, h) = Some (firstOpt xs, b', h')
     \<and> bucketQueue h' b' (tl xs) \<and> linksOnly h h' \<and> (\<forall>p. p \<notin> set xs \<longrightarrow> h' p = h p)
     \<and> (\<forall>p. firstOpt xs = Some p \<longrightarrow> nextInQueue (h' p) = None)
     \<and> (xs = [] \<longrightarrow> b' = b \<and> h' = h)"
  using genericDequeue_correct [OF assms, of "\<lambda>result element _. (RemoveAndStop, Some element)" None]
  by (cases xs) (auto simp: Bucket_dequeue_def dequeueRun_first firstOpt_def)


lemma queueAt_sharedBucketLot_7: "queueAt exampleHash sharedBucketLot 7 [7, 8]"
  by (simp add: queueAt_def bucketQueue_def lastOpt_def sharedBucketLot_def exampleHash_def
      Hashtable_size_def)

theorem unparkAll_removes_exactly_matching_witness:
  "queueAt exampleHash sharedBucketLot 1 [7, 8]
   \<and> (\<exists>s'. unparkAll exampleHash 1 sharedBucketLot = Some (Inr s')
         \<and> queueAt exampleHash s' 1 [8] \<and> notified s' = [7] \<and> \<not> shouldPark (heap s' 7)
         \<and> shouldPark (heap s' 8))
   \<and> queueAt exampleHash sharedBucketLot 7 [7, 8]
   \<and> unparkAll exampleHash 7 sharedBucketLot = Some (Inr sharedBucketLot)"
proof -
  have woken: "filter (parkedOn (heap sharedBucketLot) 1) [7, 8] = [7]"
    and kept: "filter (\<lambda>p. \<not> parkedOn (heap sharedBucketLot) 1 p) [7, 8] = [8]"
    and none: "filter (parkedOn (heap sharedBucketLot) 7) [7, 8] = []"
    and start: "notified sharedBucketLot = []" "shouldPark (heap sharedBucketLot 8)"
    by (simp_all add: parkedOn_def sharedBucketLot_def)
  from unparkAll_removes_exactly_matching [OF queueAt_sharedBucketLot_1] woken kept start
  have "\<exists>s'. unparkAll exampleHash 1 sharedBucketLot = Some (Inr s')
         \<and> queueAt exampleHash s' 1 [8] \<and> notified s' = [7] \<and> \<not> shouldPark (heap s' 7)
         \<and> shouldPark (heap s' 8)"
    by auto
  moreover from unparkAll_removes_exactly_matching [OF queueAt_sharedBucketLot_7] none
  have "unparkAll exampleHash 7 sharedBucketLot = Some (Inr sharedBucketLot)"
    by auto
  ultimately show ?thesis
    using queueAt_sharedBucketLot_1 queueAt_sharedBucketLot_7 by simp
qed

text \<open>
  Claim C7. Let the bucket \<open>b\<close> of slot \<open>i\<close> in a spine of \<open>n\<close> slots hold the queue \<open>xs\<close>:
  \<^verbatim>\<open>queueHead\<close> leads through \<open>xs\<close> to null, \<^verbatim>\<open>queueTail\<close> is the last record of \<open>xs\<close>, and
  every record of \<open>xs\<close> has an address hashing to \<open>i\<close>. Then each queue operation returns and
  leaves such a bucket, with \<^verbatim>\<open>queueHead\<close> null exactly when \<^verbatim>\<open>queueTail\<close> is:
  \<^verbatim>\<open>Bucket::enqueue\<close> of a record that is not in the queue, has a null \<^verbatim>\<open>nextInQueue\<close> and
  an address hashing to \<open>i\<close> gives the queue \<open>xs @ [td]\<close>; \<^verbatim>\<open>genericDequeue\<close> with any functor
  gives the records that the functor kept, and every removed record has \<^verbatim>\<open>nextInQueue\<close>
  null; \<^verbatim>\<open>Bucket::dequeue\<close> returns the first record (null for the empty queue), gives the
  rest of the queue, and the returned record has \<^verbatim>\<open>nextInQueue\<close> null.
\<close>

theorem bucket_operations_preserve_wellformedness:
  assumes inv: "bucketInv H n i h b xs"
  shows "(td \<notin> set xs \<and> nextInQueue (h td) = None \<and> H (address (h td)) mod n = i \<longrightarrow>
           bucketInv H n i (snd (Bucket_enqueue td (b, h))) (fst (Bucket_enqueue td (b, h))) (xs @ [td])
           \<and> (queueHead (fst (Bucket_enqueue td (b, h))) = None
                \<longleftrightarrow> queueTail (fst (Bucket_enqueue td (b, h))) = None))
     \<and> (\<exists>b' h' fs'. genericDequeue f (b, h) fs = Some ((b', h'), fs')
           \<and> bucketInv H n i h' b' (fst (dequeueRun f h fs xs))
           \<and> (queueHead b' = None \<longleftrightarrow> queueTail b' = None)
           \<and> (\<forall>p \<in> set xs - set (fst (dequeueRun f h fs xs)). nextInQueue (h' p) = None))
     \<and> (\<exists>b' h'. Bucket_dequeue (b, h) = Some (firstOpt xs, b', h')
           \<and> bucketInv H n i h' b' (tl xs)
           \<and> (queueHead b' = None \<longleftrightarrow> queueTail b' = None)
           \<and> (\<forall>p. firstOpt xs = Some p \<longrightarrow> nextInQueue (h' p) = None))"
proof (intro conjI impI)
  from inv have bq: "bucketQueue h b xs"
    and hashed: "\<forall>p \<in> set xs. H (address (h p)) mod n = i"
    by (simp_all add: bucketInv_def)
  {
    assume pre: "td \<notin> set xs \<and> nextInQueue (h td) = None \<and> H (address (h td)) mod n = i"
    let ?b' = "fst (Bucket_enqueue td (b, h))" and ?h' = "snd (Bucket_enqueue td (b, h))"
    from pre Bucket_enqueue_appends [OF bq, of td]
    have bq': "bucketQueue ?h' ?b' (xs @ [td])" and lo: "linksOnly h ?h'" by simp_all
    from hashed pre have "\<forall>p \<in> set (xs @ [td]). H (address (?h' p)) mod n = i"
      by (simp add: linksOnly_address [OF lo])
    with bq' show "bucketInv H n i ?h' ?b' (xs @ [td])" by (simp add: bucketInv_def)
    from bq' show "(queueHead ?b' = None) = (queueTail ?b' = None)"
      by (rule bucketQueue_head_tail)
  }
  {
    let ?kept = "fst (dequeueRun f h fs xs)" and ?removed = "fst (snd (dequeueRun f h fs xs))"
    from genericDequeue_correct [OF bq, of f fs] obtain b' h' where
      run: "genericDequeue f (b, h) fs = Some ((b', h'), snd (snd (dequeueRun f h fs xs)))"
      and bq': "bucketQueue h' b' ?kept"
      and rm: "\<forall>p \<in> set ?removed. nextInQueue (h' p) = None"
      and lo: "linksOnly h h'"
      by blast
    have part: "set ?kept \<union> set ?removed = set xs" by (rule dequeueRun_partition)
    with hashed have "\<forall>p \<in> set ?kept. H (address (h' p)) mod n = i"
      by (auto simp: linksOnly_address [OF lo])
    with bq' have "bucketInv H n i h' b' ?kept" by (simp add: bucketInv_def)
    moreover from bq' have "(queueHead b' = None) = (queueTail b' = None)"
      by (rule bucketQueue_head_tail)
    moreover from part rm have "\<forall>p \<in> set xs - set ?kept. nextInQueue (h' p) = None"
      by auto
    ultimately show "\<exists>b' h' fs'. genericDequeue f (b, h) fs = Some ((b', h'), fs')
           \<and> bucketInv H n i h' b' ?kept
           \<and> (queueHead b' = None \<longleftrightarrow> queueTail b' = None)
           \<and> (\<forall>p \<in> set xs - set ?kept. nextInQueue (h' p) = None)"
      using run
      by (intro exI [of _ b'] exI [of _ h'] exI [of _ "snd (snd (dequeueRun f h fs xs))"]) simp
  }
  {
    from Bucket_dequeue_correct [OF bq] obtain b' h' where
      run: "Bucket_dequeue (b, h) = Some (firstOpt xs, b', h')"
      and bq': "bucketQueue h' b' (tl xs)" and lo: "linksOnly h h'"
      and nx: "\<forall>p. firstOpt xs = Some p \<longrightarrow> nextInQueue (h' p) = None"
      by blast
    from hashed have "\<forall>p \<in> set (tl xs). H (address (h' p)) mod n = i"
      by (cases xs) (auto simp: linksOnly_address [OF lo])
    with bq' have "bucketInv H n i h' b' (tl xs)" by (simp add: bucketInv_def)
    moreover from bq' have "(queueHead b' = None) = (queueTail b' = None)"
      by (rule bucketQueue_head_tail)
    ultimately show "\<exists>b' h'. Bucket_dequeue (b, h) = Some (firstOpt xs, b', h')
           \<and> bucketInv H n i h' b' (tl xs)
           \<and> (queueHead b' = None \<longleftrightarrow> queueTail b' = None)
           \<and> (\<forall>p. firstOpt xs = Some p \<longrightarrow> nextInQueue (h' p) = None)"
      using run nx by (intro exI [of _ b'] exI [of _ h']) simp
  }
qed


theorem bucket_operations_preserve_wellformedness_witness:
  "bucketInv exampleHash 3 1 (arrivalHeap) (buckets sharedBucketLot 0) [7, 8]
   \<and> bucketInv exampleHash 3 1
         (snd (Bucket_enqueue 9 (buckets sharedBucketLot 0, arrivalHeap)))
         (fst (Bucket_enqueue 9 (buckets sharedBucketLot 0, arrivalHeap))) [7, 8, 9]
   \<and> (\<exists>b' h' fs'. genericDequeue (unparkAll_functor 4)
                       (buckets sharedBucketLot 0, arrivalHeap) [] = Some ((b', h'), fs')
         \<and> bucketInv exampleHash 3 1 h' b' [7] \<and> nextInQueue (h' 8) = None)
   \<and> (\<exists>b' h'. Bucket_dequeue (buckets sharedBucketLot 0, arrivalHeap) = Some (Some 7, b', h')
         \<and> bucketInv exampleHash 3 1 h' b' [8] \<and> nextInQueue (h' 7) = None)"
proof -
  let ?h = "arrivalHeap" and ?b = "buckets sharedBucketLot 0"
  have inv: "bucketInv exampleHash 3 1 ?h ?b [7, 8]"
    by (simp add: bucketInv_def bucketQueue_def lastOpt_def sharedBucketLot_def exampleHash_def
        arrivalHeap_def)
  have pre: "9 \<notin> set [7, 8 :: nat] \<and> nextInQueue (?h 9) = None \<and> exampleHash (address (?h 9)) mod 3 = 1"
    by (simp add: sharedBucketLot_def exampleHash_def arrivalHeap_def)
  have run: "dequeueRun (unparkAll_functor 4) ?h [] [7, 8] = ([7], [8], [8])"
    unfolding dequeueRun_unparkAll by (simp add: parkedOn_def sharedBucketLot_def arrivalHeap_def)
  have first: "firstOpt [7, 8 :: nat] = Some 7"
    by (simp add: firstOpt_def)
  note inst = bucket_operations_preserve_wellformedness
      [OF inv, of 9 "unparkAll_functor 4" "[]", unfolded run first]
  from inst pre have "bucketInv exampleHash 3 1 (snd (Bucket_enqueue 9 (?b, ?h)))
         (fst (Bucket_enqueue 9 (?b, ?h))) [7, 8, 9]"
    by simp
  moreover from inst have "\<exists>b' h' fs'. genericDequeue (unparkAll_functor 4) (?b, ?h) []
           = Some ((b', h'), fs')
         \<and> bucketInv exampleHash 3 1 h' b' [7] \<and> nextInQueue (h' 8) = None"
    by auto
  moreover from inst have "\<exists>b' h'. Bucket_dequeue (?b, ?h) = Some (Some 7, b', h')
         \<and> bucketInv exampleHash 3 1 h' b' [8] \<and> nextInQueue (h' 7) = None"
    by auto
  ultimately show ?thesis using inv by simp
qed

section \<open>enqueue and parkConditionally\<close>

lemma bucketQueue_empty_bucket: "bucketQueue h \<lparr>queueHead = None, queueTail = None\<rparr> xs = (xs = [])"
  by (cases xs) (auto simp: bucketQueue_def lastOpt_def)


















section \<open>lockHashtable and the draining of the old buckets\<close>

lemma lotInv_queueAt:
  "lotInv H s Q \<Longrightarrow> hashtable s = Some ht \<Longrightarrow> queueAt H s a (Q (H a mod Hashtable_size ht))"
proof -
  assume inv: "lotInv H s Q" and ht: "hashtable s = Some ht"
  then have sz: "Hashtable_size ht \<noteq> 0" by (simp add: lotInv_def)
  then have "H a mod Hashtable_size ht < Hashtable_size ht" by simp
  with inv ht have "slotInv H s ht (H a mod Hashtable_size ht) (Q (H a mod Hashtable_size ht))"
    by (simp add: lotInv_def)
  with sz ht show ?thesis
    by (simp add: slotInv_def queueAt_def split: option.splits)
qed

lemma materializeBucket_lotInv:
  assumes inv: "lotInv H s Q" and ht: "hashtable s = Some ht" and i: "i < Hashtable_size ht"
    and mb: "materializeBucket i s = (bucket, s1)"
  shows "lotInv H s1 Q \<and> heap s1 = heap s \<and> notified s1 = notified s
     \<and> (\<exists>ht1. hashtable s1 = Some ht1 \<and> Hashtable_size ht1 = Hashtable_size ht
           \<and> data ht1 ! i = Some bucket \<and> (\<forall>j. j \<noteq> i \<longrightarrow> data ht1 ! j = data ht ! j))"
proof (cases "data ht ! i")
  case (Some b)
  with ht mb inv show ?thesis
    by (auto simp: materializeBucket_def loadSlot_def)
next
  case None
  let ?k = "bucketCount s"
  let ?ht1 = "ht\<lparr>data := (data ht)[i := Some ?k]\<rparr>"
  from None ht mb have bucket: "bucket = ?k"
    and s1: "s1 = s\<lparr>buckets := (buckets s)(?k := \<lparr>queueHead = None, queueTail = None\<rparr>),
                   bucketCount := Suc ?k, hashtable := Some ?ht1\<rparr>"
    by (auto simp: materializeBucket_def loadSlot_def newBucket_def storeSlot_def)
  from inv ht have sz: "Hashtable_size ht \<noteq> 0" and inj: "injectiveSlots ht"
    and slots: "\<forall>j < Hashtable_size ht. slotInv H s ht j (Q j)"
    by (simp_all add: lotInv_def)
  have len: "i < length (data ht)" using i by (simp add: Hashtable_size_def)
  have below: "b < ?k" if "j < Hashtable_size ht" "data ht ! j = Some b" for j b
    using slots that by (auto simp: slotInv_def)
  have "slotInv H s1 ?ht1 j (Q j)" if j: "j < Hashtable_size ht" for j
  proof (cases "j = i")
    case True
    from slots i None have "Q i = []" by (auto simp: slotInv_def)
    with True len show ?thesis
      by (simp add: slotInv_def s1 bucketQueue_empty_bucket)
  next
    case False
    from slots j have sj: "slotInv H s ht j (Q j)" by simp
    show ?thesis
    proof (cases "data ht ! j")
      case None
      with sj False show ?thesis
        by (simp add: slotInv_def s1 Hashtable_size_def)
    next
      case (Some b)
      from below [OF j Some] have "b \<noteq> ?k" by simp
      with sj Some False show ?thesis
        by (simp add: slotInv_def s1 Hashtable_size_def)
    qed
  qed
  moreover have "injectiveSlots ?ht1"
    unfolding injectiveSlots_def
  proof (intro allI impI)
    fix a b
    assume a: "a < Hashtable_size ?ht1" and b: "b < Hashtable_size ?ht1"
      and ne: "data ?ht1 ! a \<noteq> None" and eq: "data ?ht1 ! a = data ?ht1 ! b"
    from a b have a': "a < Hashtable_size ht" and b': "b < Hashtable_size ht"
      by (simp_all add: Hashtable_size_def)
    show "a = b"
    proof (cases "a = i")
      case True
      show ?thesis
      proof (rule ccontr)
        assume "a \<noteq> b"
        with True eq len have "data ht ! b = Some ?k" by simp
        from below [OF b' this] show False by simp
      qed
    next
      case False
      show ?thesis
      proof (cases "b = i")
        case True
        with False eq len have "data ht ! a = Some ?k" by simp
        from below [OF a' this] show ?thesis by simp
      next
        case bi: False
        with False ne eq inj a' b' show ?thesis
          by (simp add: injectiveSlots_def)
      qed
    qed
  qed
  ultimately have "lotInv H s1 Q"
    using sz by (simp add: lotInv_def s1 Hashtable_size_def)
  moreover have "\<exists>ht1. hashtable s1 = Some ht1 \<and> Hashtable_size ht1 = Hashtable_size ht
           \<and> data ht1 ! i = Some bucket \<and> (\<forall>j. j \<noteq> i \<longrightarrow> data ht1 ! j = data ht ! j)"
    using len by (simp add: s1 bucket Hashtable_size_def)
  ultimately show ?thesis by (simp add: s1)
qed


lemma materializeAll_lotInv:
  assumes "lotInv H s Q" and "hashtable s = Some ht" and "i \<le> Hashtable_size ht"
  shows "\<exists>bs s1 ht1. materializeAll i s acc = (acc @ bs, s1) \<and> lotInv H s1 Q
     \<and> heap s1 = heap s \<and> notified s1 = notified s
     \<and> hashtable s1 = Some ht1 \<and> Hashtable_size ht1 = Hashtable_size ht
     \<and> (\<forall>j \<ge> i. data ht1 ! j = data ht ! j)
     \<and> map Some bs = rev (take i (data ht1))"
  using assms
proof (induction i arbitrary: s ht acc)
  case 0
  then show ?case by simp
next
  case (Suc i)
  from Suc.prems(3) have i: "i < Hashtable_size ht" by simp
  obtain b s' where mb: "materializeBucket i s = (b, s')"
    by (cases "materializeBucket i s")
  from materializeBucket_lotInv [OF Suc.prems(1,2) i mb] obtain ht' where
    inv': "lotInv H s' Q" and h': "heap s' = heap s" and n': "notified s' = notified s"
    and ht': "hashtable s' = Some ht'" and sz': "Hashtable_size ht' = Hashtable_size ht"
    and bi: "data ht' ! i = Some b" and oth: "\<forall>j. j \<noteq> i \<longrightarrow> data ht' ! j = data ht ! j"
    by blast
  from i sz' have le: "i \<le> Hashtable_size ht'" by simp
  from Suc.IH [OF inv' ht' le, of "acc @ [b]"] obtain bs s1 ht1 where
    run: "materializeAll i s' (acc @ [b]) = ((acc @ [b]) @ bs, s1)" and inv1: "lotInv H s1 Q"
    and h1: "heap s1 = heap s'" and n1: "notified s1 = notified s'"
    and ht1: "hashtable s1 = Some ht1" and sz1: "Hashtable_size ht1 = Hashtable_size ht'"
    and keep: "\<forall>j \<ge> i. data ht1 ! j = data ht' ! j"
    and lst: "map Some bs = rev (take i (data ht1))"
    by blast
  from keep bi have bi1: "data ht1 ! i = Some b" by simp
  from i sz' sz1 have "i < length (data ht1)" by (simp add: Hashtable_size_def)
  then have "take (Suc i) (data ht1) = take i (data ht1) @ [data ht1 ! i]"
    by (rule take_Suc_conv_app_nth)
  with lst bi1 have "map Some (b # bs) = rev (take (Suc i) (data ht1))" by simp
  moreover have "materializeAll (Suc i) s acc = (acc @ b # bs, s1)"
    using mb run by simp
  moreover have "\<forall>j \<ge> Suc i. data ht1 ! j = data ht ! j"
    using keep oth by simp
  ultimately show ?case
    using inv1 h1 h' n1 n' ht1 sz1 sz' by (intro exI [of _ "b # bs"] exI [of _ s1] exI [of _ ht1]) simp
qed

lemma injectiveSlots_distinct: "injectiveSlots \<lparr>data = map Some xs\<rparr> = distinct xs"
  by (auto simp: injectiveSlots_def Hashtable_size_def distinct_conv_nth)

lemma lockHashtable_lotInv:
  assumes inv: "lotInv H s Q" and ht: "hashtable s = Some ht"
  shows "\<exists>bs s1 sl. lockHashtable s = (bs, s1) \<and> lotInv H s1 Q
     \<and> heap s1 = heap s \<and> notified s1 = notified s
     \<and> hashtable s1 = Some \<lparr>data = map Some sl\<rparr> \<and> length sl = Hashtable_size ht
     \<and> distinct sl \<and> distinct bs \<and> set bs = set sl"
proof -
  from materializeAll_lotInv [OF inv ht order_refl, of "[]"] obtain bl s1 ht1 where
    run: "materializeAll (Hashtable_size ht) s [] = (bl, s1)" and inv1: "lotInv H s1 Q"
    and h1: "heap s1 = heap s" and n1: "notified s1 = notified s"
    and ht1: "hashtable s1 = Some ht1" and sz1: "Hashtable_size ht1 = Hashtable_size ht"
    and lst: "map Some bl = rev (take (Hashtable_size ht) (data ht1))"
    by auto
  from lst sz1 have "map Some bl = rev (data ht1)" by (simp add: Hashtable_size_def)
  then have "rev (map Some bl) = rev (rev (data ht1))" by (simp only:)
  then have "data ht1 = map Some (rev bl)" by (simp add: rev_map)
  then have eq: "ht1 = \<lparr>data = map Some (rev bl)\<rparr>" by (cases ht1) simp
  from inv1 ht1 have "injectiveSlots ht1" by (simp add: lotInv_def)
  with eq have "distinct (rev bl)" by (simp add: injectiveSlots_distinct)
  moreover have "lockHashtable s = (sort bl, s1)"
    using ht run by (simp add: lockHashtable_def)
  moreover from eq sz1 have "length (rev bl) = Hashtable_size ht"
    by (simp add: Hashtable_size_def)
  ultimately show ?thesis
    using inv1 h1 n1 ht1 eq
    by (intro exI [of _ "sort bl"] exI [of _ s1] exI [of _ "rev bl"]) simp
qed

lemma bucketQueue_nil: "bucketQueue h b [] \<Longrightarrow> b = \<lparr>queueHead = None, queueTail = None\<rparr>"
  by (cases b) (simp add: bucketQueue_def lastOpt_def)

lemma bucketQueue_distinct: "bucketQueue h b xs \<Longrightarrow> distinct xs"
  unfolding bucketQueue_def by (blast dest: chain_distinct)

lemma drainBucket_correct:
  assumes "bucketQueue h b xs"
  shows "\<exists>h'. drainBucket (b, h) acc = Some ((\<lparr>queueHead = None, queueTail = None\<rparr>, h'), acc @ xs)
     \<and> linksOnly h h' \<and> (\<forall>p. p \<notin> set xs \<longrightarrow> h' p = h p)
     \<and> (\<forall>p \<in> set xs. nextInQueue (h' p) = None)"
  using assms
proof (induction xs arbitrary: b h acc)
  case Nil
  from Bucket_dequeue_correct [OF Nil] have "Bucket_dequeue (b, h) = Some (None, b, h)"
    by (auto simp: firstOpt_def)
  moreover from Nil have "b = \<lparr>queueHead = None, queueTail = None\<rparr>" by (rule bucketQueue_nil)
  ultimately show ?case
    by (subst drainBucket.simps) (simp add: linksOnly_refl)
next
  case (Cons x xs)
  from Cons.prems have "distinct (x # xs)" by (rule bucketQueue_distinct)
  then have x_xs: "x \<notin> set xs" by simp
  from Bucket_dequeue_correct [OF Cons.prems] obtain b1 h1 where
    dq: "Bucket_dequeue (b, h) = Some (Some x, b1, h1)" and bq1: "bucketQueue h1 b1 xs"
    and lo1: "linksOnly h h1" and fr1: "\<forall>p. p \<notin> set (x # xs) \<longrightarrow> h1 p = h p"
    and nx1: "nextInQueue (h1 x) = None"
    by (auto simp: firstOpt_def)
  from Cons.IH [OF bq1, of "acc @ [x]"] obtain h' where
    run: "drainBucket (b1, h1) (acc @ [x])
            = Some ((\<lparr>queueHead = None, queueTail = None\<rparr>, h'), (acc @ [x]) @ xs)"
    and lo': "linksOnly h1 h'" and fr': "\<forall>p. p \<notin> set xs \<longrightarrow> h' p = h1 p"
    and nx': "\<forall>p \<in> set xs. nextInQueue (h' p) = None"
    by blast
  have "drainBucket (b, h) acc
          = Some ((\<lparr>queueHead = None, queueTail = None\<rparr>, h'), acc @ x # xs)"
    using dq run by (subst drainBucket.simps) simp
  moreover from lo1 lo' have "linksOnly h h'" by (rule linksOnly_trans)
  moreover from fr1 fr' have "\<forall>p. p \<notin> set (x # xs) \<longrightarrow> h' p = h p" by simp
  moreover from fr' x_xs nx1 nx' have "\<forall>p \<in> set (x # xs). nextInQueue (h' p) = None" by simp
  ultimately show ?case by blast
qed


lemma drainBuckets_correct:
  assumes "distinct bs"
    and "\<forall>b \<in> set bs. bucketQueue (heap s) (buckets s b) (qf b)"
    and "\<forall>b \<in> set bs. \<forall>b' \<in> set bs. b \<noteq> b' \<longrightarrow> set (qf b) \<inter> set (qf b') = {}"
  shows "\<exists>s'. drainBuckets bs s acc = Some (s', acc @ concat (map qf bs))
     \<and> (\<forall>b \<in> set bs. buckets s' b = \<lparr>queueHead = None, queueTail = None\<rparr>)
     \<and> (\<forall>b. b \<notin> set bs \<longrightarrow> buckets s' b = buckets s b)
     \<and> linksOnly (heap s) (heap s')
     \<and> (\<forall>p. p \<notin> set (concat (map qf bs)) \<longrightarrow> heap s' p = heap s p)
     \<and> (\<forall>p \<in> set (concat (map qf bs)). nextInQueue (heap s' p) = None)
     \<and> hashtable s' = hashtable s \<and> bucketCount s' = bucketCount s \<and> notified s' = notified s"
  using assms
proof (induction bs arbitrary: s acc)
  case Nil
  show ?case by (simp add: linksOnly_refl)
next
  case (Cons b rest)
  from Cons.prems have b_rest: "b \<notin> set rest" and dist: "distinct rest"
    and bq: "bucketQueue (heap s) (buckets s b) (qf b)"
    and disj: "\<forall>b' \<in> set rest. set (qf b) \<inter> set (qf b') = {}"
    by auto
  from drainBucket_correct [OF bq, of acc] obtain h1 where
    d1: "drainBucket (buckets s b, heap s) acc
           = Some ((\<lparr>queueHead = None, queueTail = None\<rparr>, h1), acc @ qf b)"
    and lo1: "linksOnly (heap s) h1" and fr1: "\<forall>p. p \<notin> set (qf b) \<longrightarrow> h1 p = heap s p"
    and nx1: "\<forall>p \<in> set (qf b). nextInQueue (h1 p) = None"
    by blast
  let ?s1 = "s\<lparr>buckets := (buckets s)(b := \<lparr>queueHead = None, queueTail = None\<rparr>), heap := h1\<rparr>"
  have q1: "\<forall>b' \<in> set rest. bucketQueue (heap ?s1) (buckets ?s1 b') (qf b')"
  proof
    fix b'
    assume mem: "b' \<in> set rest"
    with b_rest have ne: "b' \<noteq> b" by auto
    have "nextInQueue (h1 q) = nextInQueue (heap s q)" if "q \<in> set (qf b')" for q
    proof -
      from mem disj that have "q \<notin> set (qf b)" by auto
      with fr1 show ?thesis by simp
    qed
    then have "bucketQueue h1 (buckets s b') (qf b') = bucketQueue (heap s) (buckets s b') (qf b')"
      by (rule bucketQueue_next_cong)
    with Cons.prems(2) mem ne show "bucketQueue (heap ?s1) (buckets ?s1 b') (qf b')"
      by simp
  qed
  from Cons.prems(3) have disj': "\<forall>b \<in> set rest. \<forall>b' \<in> set rest. b \<noteq> b'
      \<longrightarrow> set (qf b) \<inter> set (qf b') = {}"
    by simp
  from Cons.IH [OF dist q1 disj', of "acc @ qf b"] obtain s' where
    run: "drainBuckets rest ?s1 (acc @ qf b) = Some (s', (acc @ qf b) @ concat (map qf rest))"
    and em: "\<forall>b' \<in> set rest. buckets s' b' = \<lparr>queueHead = None, queueTail = None\<rparr>"
    and keep: "\<forall>b'. b' \<notin> set rest \<longrightarrow> buckets s' b' = buckets ?s1 b'"
    and lo: "linksOnly (heap ?s1) (heap s')"
    and fr: "\<forall>p. p \<notin> set (concat (map qf rest)) \<longrightarrow> heap s' p = heap ?s1 p"
    and nx: "\<forall>p \<in> set (concat (map qf rest)). nextInQueue (heap s' p) = None"
    and same: "hashtable s' = hashtable ?s1" "bucketCount s' = bucketCount ?s1"
      "notified s' = notified ?s1"
    by blast
  have "drainBuckets (b # rest) s acc = Some (s', acc @ concat (map qf (b # rest)))"
    using d1 run by simp
  moreover have "\<forall>b' \<in> set (b # rest). buckets s' b' = \<lparr>queueHead = None, queueTail = None\<rparr>"
    using em keep b_rest by simp
  moreover have "\<forall>b'. b' \<notin> set (b # rest) \<longrightarrow> buckets s' b' = buckets s b'"
    using keep by simp
  moreover have "linksOnly (heap s) (heap s')"
    using lo1 lo by (auto intro: linksOnly_trans)
  moreover have "\<forall>p. p \<notin> set (concat (map qf (b # rest))) \<longrightarrow> heap s' p = heap s p"
    using fr fr1 by simp
  moreover have "\<forall>p \<in> set (concat (map qf (b # rest))). nextInQueue (heap s' p) = None"
  proof
    fix p
    assume "p \<in> set (concat (map qf (b # rest)))"
    then consider "p \<in> set (concat (map qf rest))"
      | "p \<in> set (qf b)" "p \<notin> set (concat (map qf rest))"
      by auto
    then show "nextInQueue (heap s' p) = None"
    proof cases
      case 1
      with nx show ?thesis by blast
    next
      case 2
      with fr have "heap s' p = h1 p" by simp
      with nx1 2(1) show ?thesis by simp
    qed
  qed
  ultimately show ?case
    using same by (intro exI [of _ s']) simp
qed

section \<open>The redistribution into the new spine\<close>

lemma rehashInv_install:
  assumes inv: "rehashInv H nh rs s moved" and i: "i < Hashtable_size nh"
    and none: "data nh ! i = None"
    and hp: "heap s1 = heap s" and old: "\<forall>b < bucketCount s. buckets s1 b = buckets s b"
    and cnt: "bucketCount s \<le> bucketCount s1"
    and bk: "bucket < bucketCount s1" "buckets s1 bucket = \<lparr>queueHead = None, queueTail = None\<rparr>"
      "Some bucket \<notin> set (data nh)"
    and rs': "distinct rs'" "set rs' \<subseteq> set rs" "bucket \<notin> set rs'"
  shows "rehashInv H (nh\<lparr>data := (data nh)[i := Some bucket]\<rparr>) rs' s1 moved"
proof -
  let ?nh' = "nh\<lparr>data := (data nh)[i := Some bucket]\<rparr>"
  let ?q = "\<lambda>j. filter (\<lambda>p. H (address (heap s p)) mod Hashtable_size nh = j) moved"
  from inv have inj: "injectiveSlots nh"
    and rs: "\<forall>b \<in> set rs. b < bucketCount s
             \<and> buckets s b = \<lparr>queueHead = None, queueTail = None\<rparr> \<and> Some b \<notin> set (data nh)"
    and slots: "\<forall>j < Hashtable_size nh. slotInv H s nh j (?q j)"
    by (simp_all add: rehashInv_def)
  have len: "i < length (data nh)" using i by (simp add: Hashtable_size_def)
  have sz: "Hashtable_size ?nh' = Hashtable_size nh" by (simp add: Hashtable_size_def)
  have mem: "Some b \<in> set (data nh)" if "j < Hashtable_size nh" "data nh ! j = Some b" for j b
    using that by (metis Hashtable_size_def nth_mem)
  have "slotInv H s1 ?nh' j (?q j)" if j: "j < Hashtable_size nh" for j
  proof (cases "j = i")
    case True
    from slots i none have "?q i = []" by (auto simp: slotInv_def)
    with True len bk show ?thesis
      by (simp add: slotInv_def hp sz bucketQueue_empty_bucket)
  next
    case False
    from slots j have sj: "slotInv H s nh j (?q j)" by simp
    show ?thesis
    proof (cases "data nh ! j")
      case None
      with sj False show ?thesis
        by (simp add: slotInv_def hp sz)
    next
      case (Some b)
      with sj have "b < bucketCount s" by (simp add: slotInv_def)
      with old cnt have "buckets s1 b = buckets s b" "b < bucketCount s1" by simp_all
      with sj Some False show ?thesis
        by (simp add: slotInv_def hp sz)
    qed
  qed
  moreover have "injectiveSlots ?nh'"
    unfolding injectiveSlots_def
  proof (intro allI impI)
    fix a b
    assume a: "a < Hashtable_size ?nh'" and b: "b < Hashtable_size ?nh'"
      and ne: "data ?nh' ! a \<noteq> None" and eq: "data ?nh' ! a = data ?nh' ! b"
    from a b have a': "a < Hashtable_size nh" and b': "b < Hashtable_size nh"
      by (simp_all add: Hashtable_size_def)
    show "a = b"
    proof (cases "a = i")
      case True
      show ?thesis
      proof (rule ccontr)
        assume "a \<noteq> b"
        with True eq len have "data nh ! b = Some bucket" by simp
        from mem [OF b' this] bk(3) show False by simp
      qed
    next
      case False
      show ?thesis
      proof (cases "b = i")
        case True
        with False eq len have "data nh ! a = Some bucket" by simp
        from mem [OF a' this] bk(3) show ?thesis by simp
      next
        case bi: False
        with False ne eq inj a' b' show ?thesis
          by (simp add: injectiveSlots_def)
      qed
    qed
  qed
  moreover have "\<forall>b \<in> set rs'. b < bucketCount s1
             \<and> buckets s1 b = \<lparr>queueHead = None, queueTail = None\<rparr>
             \<and> Some b \<notin> set (data ?nh')"
  proof
    fix b
    assume b: "b \<in> set rs'"
    with rs' have "b \<in> set rs" "b \<noteq> bucket" by auto
    with rs have "b < bucketCount s" "buckets s b = \<lparr>queueHead = None, queueTail = None\<rparr>"
      "Some b \<notin> set (data nh)"
      by simp_all
    moreover have "set ((data nh)[i := Some bucket]) \<subseteq> insert (Some bucket) (set (data nh))"
      by (rule set_update_subset_insert)
    ultimately show "b < bucketCount s1
             \<and> buckets s1 b = \<lparr>queueHead = None, queueTail = None\<rparr>
             \<and> Some b \<notin> set (data ?nh')"
      using old cnt \<open>b \<noteq> bucket\<close> by auto
  qed
  ultimately show ?thesis
    using rs'(1) by (simp add: rehashInv_def sz hp)
qed

lemma rehashInv_slot_allocated:
  "rehashInv H nh rs s moved \<Longrightarrow> j < Hashtable_size nh \<Longrightarrow> data nh ! j = Some b
     \<Longrightarrow> b < bucketCount s"
  by (auto simp: rehashInv_def slotInv_def)

lemma rehashInv_reuse:
  assumes inv: "rehashInv H nh rs s moved" and i: "i < Hashtable_size nh"
    and none: "data nh ! i = None" and ne: "rs \<noteq> []"
  shows "rehashInv H (nh\<lparr>data := (data nh)[i := Some (last rs)]\<rparr>) (butlast rs) s moved"
proof -
  from inv have rs: "distinct rs" "\<forall>b \<in> set rs. b < bucketCount s
             \<and> buckets s b = \<lparr>queueHead = None, queueTail = None\<rparr> \<and> Some b \<notin> set (data nh)"
    by (simp_all add: rehashInv_def)
  from ne have lst: "last rs \<in> set rs" by simp
  from ne rs(1) have nb: "last rs \<notin> set (butlast rs)"
    by (metis append_butlast_last_id distinct_butlast not_distinct_conv_prefix)
  show ?thesis
  proof (rule rehashInv_install [OF inv i none])
    show "distinct (butlast rs)" using rs(1) by (rule distinct_butlast)
    show "set (butlast rs) \<subseteq> set rs" by (auto dest: in_set_butlastD)
  qed (use rs lst nb in simp_all)
qed

lemma rehashBucket_correct:
  assumes inv: "rehashInv H nh rs s moved" and i: "i < Hashtable_size nh"
    and rb: "rehashBucket i (nh, rs, s) = (bucket, nh', rs', s1)"
  shows "rehashInv H nh' rs' s1 moved \<and> Hashtable_size nh' = Hashtable_size nh
     \<and> data nh' ! i = Some bucket \<and> heap s1 = heap s \<and> notified s1 = notified s
     \<and> hashtable s1 = hashtable s"
proof (cases "data nh ! i")
  case (Some b)
  with rb inv show ?thesis by (auto simp: rehashBucket_def)
next
  case None
  have len: "i < length (data nh)" using i by (simp add: Hashtable_size_def)
  from inv have rs: "distinct rs" "\<forall>b \<in> set rs. b < bucketCount s
             \<and> buckets s b = \<lparr>queueHead = None, queueTail = None\<rparr> \<and> Some b \<notin> set (data nh)"
    by (simp_all add: rehashInv_def)
  show ?thesis
  proof (cases "rs = []")
    case True
    let ?k = "bucketCount s"
    from None True rb have res: "bucket = ?k" "nh' = nh\<lparr>data := (data nh)[i := Some ?k]\<rparr>"
      "rs' = []"
      "s1 = s\<lparr>buckets := (buckets s)(?k := \<lparr>queueHead = None, queueTail = None\<rparr>),
              bucketCount := Suc ?k\<rparr>"
      by (auto simp: rehashBucket_def takeBucket_def newBucket_def)
    have fresh: "Some ?k \<notin> set (data nh)"
    proof
      assume "Some ?k \<in> set (data nh)"
      then obtain j where "j < length (data nh)" "data nh ! j = Some ?k"
        by (auto simp: in_set_conv_nth)
      with rehashInv_slot_allocated [OF inv, of j ?k] show False
        by (simp add: Hashtable_size_def)
    qed
    have "rehashInv H (nh\<lparr>data := (data nh)[i := Some ?k]\<rparr>) [] s1 moved"
      by (rule rehashInv_install [OF inv i None _ _ _ _ _ fresh]) (simp_all add: res)
    then show ?thesis
      using len by (simp add: res Hashtable_size_def)
  next
    case False
    from None False rb have res: "bucket = last rs" "nh' = nh\<lparr>data := (data nh)[i := Some (last rs)]\<rparr>"
      "rs' = butlast rs" "s1 = s"
      by (auto simp: rehashBucket_def takeBucket_def)
    from rehashInv_reuse [OF inv i None False]
    have "rehashInv H (nh\<lparr>data := (data nh)[i := Some (last rs)]\<rparr>) (butlast rs) s moved" .
    then show ?thesis
      using len by (simp add: res Hashtable_size_def)
  qed
qed


lemma rehashInv_enqueue:
  assumes inv: "rehashInv H nh rs s moved" and i: "i < Hashtable_size nh"
    and hi: "H (address (heap s td)) mod Hashtable_size nh = i"
    and slot: "data nh ! i = Some bucket" and fresh: "td \<notin> set moved"
    and nx: "nextInQueue (heap s td) = None"
    and b': "b' = fst (Bucket_enqueue td (buckets s bucket, heap s))"
    and h': "h' = snd (Bucket_enqueue td (buckets s bucket, heap s))"
  shows "rehashInv H nh rs (s\<lparr>buckets := (buckets s)(bucket := b'), heap := h'\<rparr>) (moved @ [td])
     \<and> linksOnly (heap s) h' \<and> (\<forall>p. p \<notin> set moved \<longrightarrow> h' p = heap s p)"
proof -
  let ?n = "Hashtable_size nh"
  let ?q = "\<lambda>j. filter (\<lambda>p. H (address (heap s p)) mod ?n = j) moved"
  let ?s' = "s\<lparr>buckets := (buckets s)(bucket := b'), heap := h'\<rparr>"
  from inv have inj: "injectiveSlots nh" and drs: "distinct rs"
    and rs: "\<forall>b \<in> set rs. b < bucketCount s
             \<and> buckets s b = \<lparr>queueHead = None, queueTail = None\<rparr> \<and> Some b \<notin> set (data nh)"
    and slots: "\<forall>j < ?n. slotInv H s nh j (?q j)"
    by (simp_all add: rehashInv_def)
  from slots i slot have bq: "bucketQueue (heap s) (buckets s bucket) (?q i)"
    and alloc: "bucket < bucketCount s"
    by (auto simp: slotInv_def)
  from fresh have fq: "td \<notin> set (?q i)" by simp
  from Bucket_enqueue_appends [OF bq fq nx]
  have bq': "bucketQueue h' b' (?q i @ [td])" and lo: "linksOnly (heap s) h'"
    and fr: "\<forall>p. p \<notin> set (?q i) \<longrightarrow> h' p = heap s p"
    unfolding b' h' by blast+
  have adr: "address (h' p) = address (heap s p)" for p
    using lo by (rule linksOnly_address)
  have flt: "filter (\<lambda>p. H (address (h' p)) mod ?n = j) (moved @ [td])
      = ?q j @ (if j = i then [td] else [])" for j
    using hi by (auto simp: adr)
  have mem: "Some bucket \<in> set (data nh)"
    using i slot by (metis Hashtable_size_def nth_mem)
  have "slotInv H ?s' nh j (?q j @ (if j = i then [td] else []))"
    if j: "j < ?n" for j
  proof (cases "j = i")
    case True
    with slot alloc bq' hi show ?thesis
      by (simp add: slotInv_def adr)
  next
    case False
    from slots j have sj: "slotInv H s nh j (?q j)" by simp
    show ?thesis
    proof (cases "data nh ! j")
      case None
      with sj False show ?thesis by (simp add: slotInv_def adr)
    next
      case (Some bj)
      from inj i j slot Some False have ne: "bj \<noteq> bucket"
        by (auto simp: injectiveSlots_def)
      from sj Some have bqj: "bucketQueue (heap s) (buckets s bj) (?q j)"
        and aj: "bj < bucketCount s"
        by (simp_all add: slotInv_def)
      have "nextInQueue (h' p) = nextInQueue (heap s p)" if "p \<in> set (?q j)" for p
      proof -
        from that False have "p \<notin> set (?q i)" by auto
        with fr show ?thesis by simp
      qed
      then have "bucketQueue h' (buckets s bj) (?q j) = bucketQueue (heap s) (buckets s bj) (?q j)"
        by (rule bucketQueue_next_cong)
      with bqj aj Some False ne show ?thesis
        by (simp add: slotInv_def adr)
    qed
  qed
  then have "\<forall>j < ?n. slotInv H ?s' nh j
               (filter (\<lambda>p. H (address (h' p)) mod ?n = j) (moved @ [td]))"
    by (simp only: flt) simp
  moreover have "\<forall>b \<in> set rs. b < bucketCount ?s'
             \<and> buckets ?s' b = \<lparr>queueHead = None, queueTail = None\<rparr>
             \<and> Some b \<notin> set (data nh)"
  proof
    fix b
    assume "b \<in> set rs"
    with rs have *: "b < bucketCount s" "buckets s b = \<lparr>queueHead = None, queueTail = None\<rparr>"
      "Some b \<notin> set (data nh)"
      by simp_all
    with mem have "b \<noteq> bucket" by auto
    with * show "b < bucketCount ?s'
             \<and> buckets ?s' b = \<lparr>queueHead = None, queueTail = None\<rparr>
             \<and> Some b \<notin> set (data nh)"
      by simp
  qed
  moreover have "\<forall>p. p \<notin> set moved \<longrightarrow> h' p = heap s p"
    using fr by simp
  ultimately show ?thesis
    using inj drs lo by (simp add: rehashInv_def del: filter_append)
qed

lemma rehashThreadDatas_correct:
  assumes "rehashInv H nh rs s moved" and "Hashtable_size nh \<noteq> 0"
    and "distinct todo" and "set todo \<inter> set moved = {}"
    and "\<forall>p \<in> set todo. nextInQueue (heap s p) = None"
  shows "\<exists>nh' rs' s'. rehashThreadDatas H todo (nh, rs, s) = (nh', rs', s')
     \<and> rehashInv H nh' rs' s' (moved @ todo) \<and> Hashtable_size nh' = Hashtable_size nh
     \<and> linksOnly (heap s) (heap s') \<and> notified s' = notified s \<and> hashtable s' = hashtable s"
  using assms
proof (induction todo arbitrary: nh rs s moved)
  case Nil
  then show ?case by (simp add: linksOnly_refl)
next
  case (Cons td rest)
  let ?i = "H (address (heap s td)) mod Hashtable_size nh"
  from Cons.prems(2) have i: "?i < Hashtable_size nh" by simp
  obtain bucket nh1 rs1 s1 where rb: "rehashBucket ?i (nh, rs, s) = (bucket, nh1, rs1, s1)"
    by (cases "rehashBucket ?i (nh, rs, s)")
  from rehashBucket_correct [OF Cons.prems(1) i rb]
  have inv1: "rehashInv H nh1 rs1 s1 moved" and sz1: "Hashtable_size nh1 = Hashtable_size nh"
    and slot1: "data nh1 ! ?i = Some bucket" and hp1: "heap s1 = heap s"
    and nt1: "notified s1 = notified s" and ht1: "hashtable s1 = hashtable s"
    by simp_all
  let ?b' = "fst (Bucket_enqueue td (buckets s1 bucket, heap s1))"
  let ?h' = "snd (Bucket_enqueue td (buckets s1 bucket, heap s1))"
  let ?s2 = "s1\<lparr>buckets := (buckets s1)(bucket := ?b'), heap := ?h'\<rparr>"
  from Cons.prems(4) have fresh: "td \<notin> set moved" by auto
  from Cons.prems(5) hp1 have nx: "nextInQueue (heap s1 td) = None" by simp
  from i sz1 have i1: "?i < Hashtable_size nh1" by simp
  have hi: "H (address (heap s1 td)) mod Hashtable_size nh1 = ?i" by (simp add: hp1 sz1)
  from rehashInv_enqueue [OF inv1 i1 hi slot1 fresh nx refl refl]
  have inv2: "rehashInv H nh1 rs1 ?s2 (moved @ [td])" and lo2: "linksOnly (heap s1) ?h'"
    and fr2: "\<forall>p. p \<notin> set moved \<longrightarrow> ?h' p = heap s1 p"
    by blast+
  from Cons.prems(3) have d: "distinct rest" and td_rest: "td \<notin> set rest" by simp_all
  from Cons.prems(4) td_rest have disj: "set rest \<inter> set (moved @ [td]) = {}" by auto
  have nxr: "\<forall>p \<in> set rest. nextInQueue (heap ?s2 p) = None"
  proof
    fix p
    assume p: "p \<in> set rest"
    with Cons.prems(4) have "p \<notin> set moved" by auto
    with fr2 have "?h' p = heap s1 p" by simp
    with Cons.prems(5) p hp1 show "nextInQueue (heap ?s2 p) = None" by simp
  qed
  from sz1 Cons.prems(2) have nz: "Hashtable_size nh1 \<noteq> 0" by simp
  from Cons.IH [OF inv2 nz d disj nxr] obtain nh' rs' s' where
    run: "rehashThreadDatas H rest (nh1, rs1, ?s2) = (nh', rs', s')"
    and inv': "rehashInv H nh' rs' s' ((moved @ [td]) @ rest)"
    and sz': "Hashtable_size nh' = Hashtable_size nh1"
    and lo': "linksOnly (heap ?s2) (heap s')" and nt': "notified s' = notified ?s2"
    and ht': "hashtable s' = hashtable ?s2"
    by blast
  have "rehashThreadDatas H (td # rest) (nh, rs, s) = (nh', rs', s')"
    using rb run by (simp add: split_beta)
  moreover have "linksOnly (heap s) (heap s')"
    using lo2 lo' hp1 by (auto intro: linksOnly_trans)
  ultimately show ?case
    using inv' sz' sz1 nt' nt1 ht' ht1 by simp
qed


lemma placeLeftovers_correct:
  assumes "rehashInv H nh rs s moved"
  shows "\<exists>nh' rs'. placeLeftovers i nh rs = (nh', rs') \<and> rehashInv H nh' rs' s moved
     \<and> Hashtable_size nh' = Hashtable_size nh"
  using assms
proof (induction i nh rs rule: placeLeftovers.induct)
  case (1 i nh rs)
  show ?case
  proof (cases "i < Hashtable_size nh \<and> rs \<noteq> []")
    case False
    with "1.prems" show ?thesis
      by (subst placeLeftovers.simps) auto
  next
    case True
    show ?thesis
    proof (cases "data nh ! i = None")
      case False
      from "1.IH"(1) [OF True False "1.prems"] True False show ?thesis
        by (subst placeLeftovers.simps) simp
    next
      case None: True
      let ?nh1 = "nh\<lparr>data := (data nh)[i := Some (last rs)]\<rparr>"
      from True None "1.prems" have "rehashInv H ?nh1 (butlast rs) s moved"
        by (simp add: rehashInv_reuse)
      from "1.IH"(2) [OF True _ this] None True
      have "\<exists>nh' rs'. placeLeftovers (Suc i) ?nh1 (butlast rs) = (nh', rs')
          \<and> rehashInv H nh' rs' s moved \<and> Hashtable_size nh' = Hashtable_size ?nh1"
        by simp
      moreover have "Hashtable_size ?nh1 = Hashtable_size nh" by (simp add: Hashtable_size_def)
      ultimately show ?thesis
        using True None by (subst placeLeftovers.simps) simp
    qed
  qed
qed

lemma distinct_concat_map:
  assumes "distinct bs" and "\<forall>b \<in> set bs. distinct (qf b)"
    and "\<forall>b \<in> set bs. \<forall>b' \<in> set bs. b \<noteq> b' \<longrightarrow> set (qf b) \<inter> set (qf b') = {}"
  shows "distinct (concat (map qf bs))"
  using assms
proof (induction bs)
  case Nil
  show ?case by simp
next
  case (Cons b bs)
  then have "distinct (concat (map qf bs))" by simp
  moreover from Cons.prems have "distinct (qf b)" by simp
  moreover from Cons.prems have "\<forall>b' \<in> set bs. set (qf b) \<inter> set (qf b') = {}" by auto
  ultimately show ?case by auto
qed

lemma concat_map_single:
  assumes "distinct bs" and "b0 \<in> set bs" and "\<forall>b \<in> set bs. b \<noteq> b0 \<longrightarrow> f b = []"
  shows "concat (map f bs) = f b0"
  using assms
proof (induction bs)
  case Nil
  then show ?case by simp
next
  case (Cons b bs)
  show ?case
  proof (cases "b = b0")
    case True
    with Cons.prems have "\<forall>b' \<in> set bs. f b' = []" by auto
    then have "concat (map f bs) = []" by simp
    with True show ?thesis by simp
  next
    case False
    with Cons show ?thesis by simp
  qed
qed

lemma loadFactorHolds_nat:
  "loadFactorHolds sz n = (if n = 0 then sz \<noteq> 0 else 3 * n \<le> sz)"
proof (cases "n = 0")
  case True
  then show ?thesis by (simp add: loadFactorHolds_def)
next
  case False
  then have pos: "0 < real n" by simp
  have "(3 \<le> real sz / real n) = (3 * real n \<le> real sz)"
    using pos by (simp add: pos_le_divide_eq)
  also have "\<dots> = (real (3 * n) \<le> real sz)" by simp
  also have "\<dots> = (3 * n \<le> sz)" by (simp only: of_nat_le_iff)
  finally show ?thesis using False by (simp add: loadFactorHolds_def maxLoadFactor_def)
qed

section \<open>ensureHashtableSize\<close>

lemma slotInv_hashtable_upd:
  "slotInv H (s\<lparr>hashtable := v\<rparr>) nh i xs = slotInv H s nh i xs"
  by (simp add: slotInv_def split: option.splits)

lemma ensureHashtableSize_rehashes:
  assumes inv: "lotInv H s Q" and ht: "hashtable s = Some ht"
    and need: "\<not> loadFactorHolds (Hashtable_size ht) n"
    and grow: "Hashtable_size ht < (n * growthFactor * maxLoadFactor) mod 2 ^ 32"
  shows "\<exists>s' nh Q'. ensureHashtableSize H n s = Some (Inr s') \<and> hashtable s' = Some nh
     \<and> Hashtable_size nh = (n * growthFactor * maxLoadFactor) mod 2 ^ 32
     \<and> lotInv H s' Q' \<and> linksOnly (heap s) (heap s') \<and> notified s' = notified s
     \<and> (\<forall>a. filter (parkedOn (heap s') a) (Q' (H a mod Hashtable_size nh))
             = filter (parkedOn (heap s) a) (Q (H a mod Hashtable_size ht)))"
proof -
  define m where "m = (n * growthFactor * maxLoadFactor) mod 2 ^ 32"
  let ?n0 = "Hashtable_size ht"
  from grow have grow': "?n0 < m" by (simp add: m_def)
  from lockHashtable_lotInv [OF inv ht] obtain bs s1 sl where
    lk: "lockHashtable s = (bs, s1)" and inv1: "lotInv H s1 Q"
    and h1: "heap s1 = heap s" and n1: "notified s1 = notified s"
    and ht1: "hashtable s1 = Some \<lparr>data = map Some sl\<rparr>" and len: "length sl = ?n0"
    and dsl: "distinct sl" and dbs: "distinct bs" and sbs: "set bs = set sl"
    by blast
  let ?ht1 = "\<lparr>data = map Some sl\<rparr>"
  have size1: "Hashtable_size ?ht1 = ?n0" by (simp add: Hashtable_size_def len)
  from inv1 ht1 size1 have nz: "?n0 \<noteq> 0"
    and slots1: "\<forall>j < ?n0. slotInv H s1 ?ht1 j (Q j)"
    by (simp_all add: lotInv_def)
  have slot: "sl ! j < bucketCount s1 \<and> bucketQueue (heap s) (buckets s1 (sl ! j)) (Q j)
      \<and> (\<forall>p \<in> set (Q j). H (address (heap s p)) mod ?n0 = j)" if "j < ?n0" for j
    using slots1 that len by (simp add: slotInv_def h1 size1)
  define idx where "idx b = (THE j. j < length sl \<and> sl ! j = b)" for b
  have idx: "idx (sl ! j) = j" if "j < length sl" for j
    unfolding idx_def using that dsl by (auto simp: nth_eq_iff_index_eq intro!: the_equality)
  define qf where "qf b = Q (idx b)" for b
  have qf: "qf (sl ! j) = Q j" if "j < length sl" for j
    using that by (simp add: qf_def idx)
  have bqs: "\<forall>b \<in> set bs. bucketQueue (heap s1) (buckets s1 b) (qf b)"
  proof
    fix b
    assume "b \<in> set bs"
    with sbs obtain j where j: "j < length sl" "sl ! j = b" by (auto simp: in_set_conv_nth)
    with slot [of j] len qf [of j] show "bucketQueue (heap s1) (buckets s1 b) (qf b)"
      by (simp add: h1)
  qed
  have alloc: "\<forall>b \<in> set bs. b < bucketCount s1"
  proof
    fix b
    assume "b \<in> set bs"
    with sbs obtain j where j: "j < length sl" "sl ! j = b" by (auto simp: in_set_conv_nth)
    with slot [of j] len show "b < bucketCount s1" by simp
  qed
  have disj: "\<forall>b \<in> set bs. \<forall>b' \<in> set bs. b \<noteq> b' \<longrightarrow> set (qf b) \<inter> set (qf b') = {}"
  proof (intro ballI impI)
    fix b b'
    assume "b \<in> set bs" "b' \<in> set bs" and ne: "b \<noteq> b'"
    with sbs obtain j j' where j: "j < length sl" "sl ! j = b" and j': "j' < length sl" "sl ! j' = b'"
      by (auto simp: in_set_conv_nth)
    from ne j j' have "j \<noteq> j'" by auto
    moreover from slot [of j] j len qf [of j]
    have "\<forall>p \<in> set (qf b). H (address (heap s p)) mod ?n0 = j" by simp
    moreover from slot [of j'] j' len qf [of j']
    have "\<forall>p \<in> set (qf b'). H (address (heap s p)) mod ?n0 = j'" by simp
    ultimately show "set (qf b) \<inter> set (qf b') = {}" by auto
  qed
  let ?tds = "concat (map qf bs)"
  from drainBuckets_correct [OF dbs bqs disj, of "[]"] obtain s2 where
    dr: "drainBuckets bs s1 [] = Some (s2, ?tds)"
    and em: "\<forall>b \<in> set bs. buckets s2 b = \<lparr>queueHead = None, queueTail = None\<rparr>"
    and lo2: "linksOnly (heap s1) (heap s2)"
    and nx2: "\<forall>p \<in> set ?tds. nextInQueue (heap s2 p) = None"
    and same2: "bucketCount s2 = bucketCount s1" "notified s2 = notified s1"
    by auto
  have dtds: "distinct ?tds"
  proof (rule distinct_concat_map [OF dbs _ disj])
    show "\<forall>b \<in> set bs. distinct (qf b)"
      using bqs by (auto dest: bucketQueue_distinct)
  qed
  have rinv0: "rehashInv H (Hashtable_create m) bs s2 []"
    using dbs alloc em same2
    by (simp add: rehashInv_def Hashtable_create_def injectiveSlots_def slotInv_def
        Hashtable_size_def)
  have msz: "Hashtable_size (Hashtable_create m) = m"
    by (simp add: Hashtable_create_def Hashtable_size_def)
  from grow' have mpos: "m \<noteq> 0" by simp
  have mnz: "Hashtable_size (Hashtable_create m) \<noteq> 0"
    unfolding msz by (rule mpos)
  have empty_disj: "set ?tds \<inter> set [] = {}" by simp
  from rehashThreadDatas_correct [OF rinv0 mnz dtds empty_disj nx2] obtain nh3 rs3 s3 where
    run3: "rehashThreadDatas H ?tds (Hashtable_create m, bs, s2) = (nh3, rs3, s3)"
    and inv3: "rehashInv H nh3 rs3 s3 ?tds" and sz3: "Hashtable_size nh3 = m"
    and lo3: "linksOnly (heap s2) (heap s3)" and nt3: "notified s3 = notified s2"
    by (auto simp: msz)
  from placeLeftovers_correct [OF inv3, of 0] obtain nh4 rs4 where
    pl: "placeLeftovers 0 nh3 rs3 = (nh4, rs4)" and inv4: "rehashInv H nh4 rs4 s3 ?tds"
    and sz4: "Hashtable_size nh4 = m"
    by (auto simp: sz3)
  let ?s' = "s3\<lparr>hashtable := Some nh4\<rparr>"
  have run: "ensureHashtableSize H n s = Some (Inr ?s')"
    unfolding ensureHashtableSize_def m_def [symmetric]
    using need grow' by (simp add: ht lk ht1 size1 dr run3 pl)
  define Q' where "Q' i = filter (\<lambda>p. H (address (heap s3 p)) mod m = i) ?tds" for i
  have inv': "lotInv H ?s' Q'"
    using inv4 mpos by (simp add: lotInv_def rehashInv_def sz4 Q'_def slotInv_hashtable_upd)
  have lo: "linksOnly (heap s) (heap s3)"
    using lo2 lo3 h1 by (auto intro: linksOnly_trans)
  have adr: "address (heap s3 p) = address (heap s p)" for p
    using lo by (rule linksOnly_address)
  have per_address: "filter (parkedOn (heap ?s') a) (Q' (H a mod Hashtable_size nh4))
             = filter (parkedOn (heap s) a) (Q (H a mod ?n0))" for a
  proof -
    let ?P = "parkedOn (heap s) a"
    let ?j0 = "H a mod ?n0"
    from nz have j0: "?j0 < length sl" by (simp add: len)
    have "filter (parkedOn (heap ?s') a) (Q' (H a mod Hashtable_size nh4)) = filter ?P ?tds"
      by (auto simp: Q'_def sz4 parkedOn_def adr intro: filter_cong)
    also have "\<dots> = concat (map (\<lambda>b. filter ?P (qf b)) bs)"
      by (simp add: filter_concat comp_def)
    also have "\<dots> = filter ?P (qf (sl ! ?j0))"
    proof (rule concat_map_single [OF dbs])
      show "sl ! ?j0 \<in> set bs" using j0 sbs by simp
      show "\<forall>b \<in> set bs. b \<noteq> sl ! ?j0 \<longrightarrow> filter ?P (qf b) = []"
      proof (intro ballI impI)
        fix b
        assume "b \<in> set bs" and ne: "b \<noteq> sl ! ?j0"
        with sbs obtain j where j: "j < length sl" "sl ! j = b" by (auto simp: in_set_conv_nth)
        with ne have "j \<noteq> ?j0" by auto
        moreover from slot [of j] j len qf [of j]
        have "\<forall>p \<in> set (qf b). H (address (heap s p)) mod ?n0 = j" by simp
        ultimately have "\<forall>p \<in> set (qf b). \<not> ?P p" by (auto simp: parkedOn_def)
        then show "filter ?P (qf b) = []" by (simp add: filter_empty_conv)
      qed
    qed
    also have "\<dots> = filter ?P (Q ?j0)" using j0 by (simp add: qf)
    finally show ?thesis .
  qed
  from run inv' lo nt3 same2 n1 sz4 per_address
  have "\<exists>s' nh Q'. ensureHashtableSize H n s = Some (Inr s') \<and> hashtable s' = Some nh
     \<and> Hashtable_size nh = m
     \<and> lotInv H s' Q' \<and> linksOnly (heap s) (heap s') \<and> notified s' = notified s
     \<and> (\<forall>a. filter (parkedOn (heap s') a) (Q' (H a mod Hashtable_size nh))
             = filter (parkedOn (heap s) a) (Q (H a mod Hashtable_size ht)))"
    by (intro exI [of _ ?s'] exI [of _ nh4] exI [of _ Q']) simp
  then show ?thesis unfolding m_def .
qed


lemma lotInv_emptyLot: "lotInv exampleHash emptyLot (\<lambda>i. [])"
  by (simp add: lotInv_def injectiveSlots_def slotInv_def emptyLot_def Hashtable_size_def
      All_less_Suc)

lemma lotInv_fifoLot: "lotInv exampleHash fifoLot (\<lambda>i. if i = 1 then [5, 6, 7] else [])"
  by (simp add: lotInv_def injectiveSlots_def slotInv_def fifoLot_def Hashtable_size_def
      All_less_Suc bucketQueue_def lastOpt_def exampleHash_def)

text \<open>
  Claim C10. Let the parking lot be well formed with the queues \<open>Q\<close>, and let
  \<^verbatim>\<open>ensureHashtableSize\<close> rehash: the load factor fails and the new size passes the
  \<^verbatim>\<open>RELEASE_ASSERT\<close>. Then the call returns with a spine of the new size installed; the
  parking lot is again well formed, with queues \<open>Q'\<close>; no address of a record changes; and for
  every address the records parked on it, read in queue order from its new bucket, are the
  records parked on it in its old bucket, in the same order.
\<close>

theorem rehash_preserves_order_per_address:
  assumes "lotInv H s Q" and "hashtable s = Some ht"
    and "\<not> loadFactorHolds (Hashtable_size ht) n"
    and "Hashtable_size ht < (n * growthFactor * maxLoadFactor) mod 2 ^ 32"
  shows "\<exists>s' nh Q'. ensureHashtableSize H n s = Some (Inr s') \<and> hashtable s' = Some nh
     \<and> Hashtable_size nh = (n * growthFactor * maxLoadFactor) mod 2 ^ 32
     \<and> lotInv H s' Q' \<and> (\<forall>p. address (heap s' p) = address (heap s p))
     \<and> (\<forall>a. filter (parkedOn (heap s') a) (Q' (H a mod Hashtable_size nh))
             = filter (parkedOn (heap s) a) (Q (H a mod Hashtable_size ht)))"
proof -
  from ensureHashtableSize_rehashes [OF assms] obtain s' nh Q' where
    res: "ensureHashtableSize H n s = Some (Inr s')" "hashtable s' = Some nh"
      "Hashtable_size nh = (n * growthFactor * maxLoadFactor) mod 2 ^ 32"
      "lotInv H s' Q'"
      "\<forall>a. filter (parkedOn (heap s') a) (Q' (H a mod Hashtable_size nh))
             = filter (parkedOn (heap s) a) (Q (H a mod Hashtable_size ht))"
    and lo: "linksOnly (heap s) (heap s')"
    by blast
  from lo have "\<forall>p. address (heap s' p) = address (heap s p)"
    by (simp add: linksOnly_address)
  with res show ?thesis by blast
qed

theorem rehash_preserves_order_per_address_witness:
  "lotInv exampleHash fifoLot (\<lambda>i. if i = 1 then [5, 6, 7] else [])
   \<and> \<not> loadFactorHolds 3 2
   \<and> (\<exists>s' nh Q'. ensureHashtableSize exampleHash 2 fifoLot = Some (Inr s')
         \<and> hashtable s' = Some nh \<and> Hashtable_size nh = 12 \<and> lotInv exampleHash s' Q'
         \<and> filter (parkedOn (heap s') 1) (Q' 1) = [5, 7]
         \<and> filter (parkedOn (heap s') 4) (Q' 4) = [6])"
proof -
  have ht: "hashtable fifoLot = Some \<lparr>data = [None, Some 0, None]\<rparr>"
    by (simp add: fifoLot_def)
  have sz: "Hashtable_size \<lparr>data = [None, Some 0, None]\<rparr> = 3"
    by (simp add: Hashtable_size_def)
  have need: "\<not> loadFactorHolds 3 2"
    by (simp add: loadFactorHolds_nat)
  have m: "(2 * growthFactor * maxLoadFactor) mod 2 ^ 32 = 12"
    by (simp add: growthFactor_def maxLoadFactor_def)
  have grow: "Hashtable_size \<lparr>data = [None, Some 0, None]\<rparr>
      < (2 * growthFactor * maxLoadFactor) mod 2 ^ 32"
    unfolding m sz by simp
  have need': "\<not> loadFactorHolds (Hashtable_size \<lparr>data = [None, Some 0, None]\<rparr>) 2"
    unfolding sz by (rule need)
  from rehash_preserves_order_per_address [OF lotInv_fifoLot ht need' grow]
  obtain s' nh Q' where run: "ensureHashtableSize exampleHash 2 fifoLot = Some (Inr s')"
    and nh: "hashtable s' = Some nh"
      "Hashtable_size nh = (2 * growthFactor * maxLoadFactor) mod 2 ^ 32"
    and inv': "lotInv exampleHash s' Q'"
    and same: "\<forall>a. filter (parkedOn (heap s') a) (Q' (exampleHash a mod Hashtable_size nh))
             = filter (parkedOn (heap fifoLot) a)
                 (if exampleHash a mod Hashtable_size \<lparr>data = [None, Some 0, None]\<rparr> = 1
                  then [5, 6, 7] else [])"
    by blast
  from nh(2) have sz': "Hashtable_size nh = 12" unfolding m .
  from same have "filter (parkedOn (heap s') 1) (Q' (exampleHash 1 mod Hashtable_size nh))
             = filter (parkedOn (heap fifoLot) 1)
                 (if exampleHash 1 mod Hashtable_size \<lparr>data = [None, Some 0, None]\<rparr> = 1
                  then [5, 6, 7] else [])" ..
  then have one: "filter (parkedOn (heap s') 1) (Q' 1) = [5, 7]"
    by (simp add: sz sz' exampleHash_def parkedOn_def fifoLot_def)
  from same have "filter (parkedOn (heap s') 4) (Q' (exampleHash 4 mod Hashtable_size nh))
             = filter (parkedOn (heap fifoLot) 4)
                 (if exampleHash 4 mod Hashtable_size \<lparr>data = [None, Some 0, None]\<rparr> = 1
                  then [5, 6, 7] else [])" ..
  then have four: "filter (parkedOn (heap s') 4) (Q' 4) = [6]"
    by (simp add: sz sz' exampleHash_def parkedOn_def fifoLot_def)
  from run nh(1) sz' inv' one four lotInv_fifoLot need show ?thesis by blast
qed


text \<open>
  Claim C8, as stated, fails on the code when the product wraps around. With a spine of 3
  slots and \<open>numThreads = 715827884\<close> the load factor fails, \<open>6 * numThreads\<close> is
  \<open>2 ^ 32 + 8\<close>, so \<^verbatim>\<open>newSize\<close> is 8; the \<^verbatim>\<open>RELEASE_ASSERT\<close> passes since \<open>8 > 3\<close>, and the
  spine installed has 8 slots: not \<open>6 * numThreads\<close>, and the load factor does not hold.
\<close>

theorem ensureHashtableSize_wraps_around:
  "map_option (map_sum id (map_option Hashtable_size \<circ> hashtable))
     (ensureHashtableSize exampleHash 715827884 emptyLot) = Some (Inr (Some 8))
   \<and> \<not> loadFactorHolds 3 715827884 \<and> \<not> loadFactorHolds 8 715827884
   \<and> (8 :: nat) \<noteq> 6 * 715827884"
proof -
  have ht: "hashtable emptyLot = Some \<lparr>data = [None, None, None]\<rparr>"
    by (simp add: emptyLot_def)
  have sz: "Hashtable_size \<lparr>data = [None, None, None]\<rparr> = 3"
    by (simp add: Hashtable_size_def)
  have need: "\<not> loadFactorHolds 3 715827884" and after: "\<not> loadFactorHolds 8 715827884"
    by (simp_all add: loadFactorHolds_nat)
  have m: "(715827884 * growthFactor * maxLoadFactor) mod 2 ^ 32 = 8"
    by (simp add: growthFactor_def maxLoadFactor_def)
  have grow: "Hashtable_size \<lparr>data = [None, None, None]\<rparr>
      < (715827884 * growthFactor * maxLoadFactor) mod 2 ^ 32"
    unfolding m sz by simp
  have need': "\<not> loadFactorHolds (Hashtable_size \<lparr>data = [None, None, None]\<rparr>) 715827884"
    unfolding sz by (rule need)
  from ensureHashtableSize_rehashes [OF lotInv_emptyLot ht need' grow]
  obtain s' nh where "ensureHashtableSize exampleHash 715827884 emptyLot = Some (Inr s')"
    "hashtable s' = Some nh"
    "Hashtable_size nh = (715827884 * growthFactor * maxLoadFactor) mod 2 ^ 32"
    by blast
  then have "map_option (map_sum id (map_option Hashtable_size \<circ> hashtable))
     (ensureHashtableSize exampleHash 715827884 emptyLot) = Some (Inr (Some 8))"
    unfolding m by simp
  with need after show ?thesis by simp
qed

text \<open>
  Claim C8, amended. In a well-formed parking lot and for \<open>numThreads\<close> with
  \<open>numThreads * growthFactor * maxLoadFactor < 2 ^ 32\<close>: when the load factor holds,
  \<^verbatim>\<open>ensureHashtableSize\<close> returns with the state unchanged; when it fails, the call returns
  with a new spine whose size is \<open>numThreads * growthFactor * maxLoadFactor = 6 * numThreads\<close>,
  which is greater than the old size, and the load factor holds for the new size.
\<close>

theorem ensureHashtableSize_growth:
  assumes inv: "lotInv H s Q" and ht: "hashtable s = Some ht"
    and bound: "n * growthFactor * maxLoadFactor < 2 ^ 32"
  shows "(loadFactorHolds (Hashtable_size ht) n \<longrightarrow> ensureHashtableSize H n s = Some (Inr s))
     \<and> (\<not> loadFactorHolds (Hashtable_size ht) n \<longrightarrow>
          (\<exists>s' nh. ensureHashtableSize H n s = Some (Inr s') \<and> hashtable s' = Some nh
             \<and> Hashtable_size nh = n * growthFactor * maxLoadFactor
             \<and> Hashtable_size nh = 6 * n
             \<and> Hashtable_size ht < Hashtable_size nh
             \<and> loadFactorHolds (Hashtable_size nh) n))"
proof (intro conjI impI)
  assume "loadFactorHolds (Hashtable_size ht) n"
  with ht show "ensureHashtableSize H n s = Some (Inr s)"
    by (simp add: ensureHashtableSize_def)
next
  assume need: "\<not> loadFactorHolds (Hashtable_size ht) n"
  from inv ht have nz: "Hashtable_size ht \<noteq> 0" by (simp add: lotInv_def)
  from need nz have n: "n \<noteq> 0" and small: "Hashtable_size ht < 3 * n"
    by (auto simp: loadFactorHolds_nat split: if_splits)
  from bound have m: "(n * growthFactor * maxLoadFactor) mod 2 ^ 32 = n * growthFactor * maxLoadFactor"
    by simp
  have six: "n * growthFactor * maxLoadFactor = 6 * n"
    by (simp add: growthFactor_def maxLoadFactor_def)
  have grow: "Hashtable_size ht < (n * growthFactor * maxLoadFactor) mod 2 ^ 32"
    unfolding m using small by (simp add: six)
  from ensureHashtableSize_rehashes [OF inv ht need grow]
  obtain s' nh where run: "ensureHashtableSize H n s = Some (Inr s')"
    and nh: "hashtable s' = Some nh"
    and sz: "Hashtable_size nh = (n * growthFactor * maxLoadFactor) mod 2 ^ 32"
    by blast
  from sz have sz': "Hashtable_size nh = n * growthFactor * maxLoadFactor" unfolding m .
  then have sz6: "Hashtable_size nh = 6 * n" unfolding six .
  from sz6 small have "Hashtable_size ht < Hashtable_size nh" by simp
  moreover from sz6 n have "loadFactorHolds (Hashtable_size nh) n"
    by (simp add: loadFactorHolds_nat)
  ultimately show "\<exists>s' nh. ensureHashtableSize H n s = Some (Inr s') \<and> hashtable s' = Some nh
             \<and> Hashtable_size nh = n * growthFactor * maxLoadFactor
             \<and> Hashtable_size nh = 6 * n
             \<and> Hashtable_size ht < Hashtable_size nh
             \<and> loadFactorHolds (Hashtable_size nh) n"
    using run nh sz' sz6 by blast
qed

theorem ensureHashtableSize_growth_witness:
  "lotInv exampleHash emptyLot (\<lambda>i. [])
   \<and> loadFactorHolds 3 1 \<and> ensureHashtableSize exampleHash 1 emptyLot = Some (Inr emptyLot)
   \<and> \<not> loadFactorHolds 3 2
   \<and> (\<exists>s' nh. ensureHashtableSize exampleHash 2 emptyLot = Some (Inr s')
         \<and> hashtable s' = Some nh \<and> Hashtable_size nh = 12 \<and> loadFactorHolds 12 2)"
proof -
  have ht: "hashtable emptyLot = Some \<lparr>data = [None, None, None]\<rparr>"
    by (simp add: emptyLot_def)
  have sz: "Hashtable_size \<lparr>data = [None, None, None]\<rparr> = 3"
    by (simp add: Hashtable_size_def)
  have holds: "loadFactorHolds 3 1" and fails: "\<not> loadFactorHolds 3 2"
    by (simp_all add: loadFactorHolds_nat)
  have b1: "1 * growthFactor * maxLoadFactor < (2 :: nat) ^ 32"
    and b2: "2 * growthFactor * maxLoadFactor < (2 :: nat) ^ 32"
    by (simp_all add: growthFactor_def maxLoadFactor_def)
  from ensureHashtableSize_growth [OF lotInv_emptyLot ht b1] holds
  have one: "ensureHashtableSize exampleHash 1 emptyLot = Some (Inr emptyLot)"
    by (simp add: sz)
  from ensureHashtableSize_growth [OF lotInv_emptyLot ht b2] fails
  have two: "\<exists>s' nh. ensureHashtableSize exampleHash 2 emptyLot = Some (Inr s')
         \<and> hashtable s' = Some nh \<and> Hashtable_size nh = 12 \<and> loadFactorHolds 12 2"
    by (auto simp: sz)
  from lotInv_emptyLot holds one fails two show ?thesis by blast
qed

end
